theory Spec2Isabelle
  imports Complex_Main "HOL-Library.Word" "HOL-Library.Sublist"
begin

unbundle bit_operations_syntax

section \<open>JavaScript values produced by the NBT reader\<close>

text \<open>
  The reader of \<^verbatim>\<open>nbt-reader.js\<close> turns a byte buffer into plain JavaScript values and the
  extractor walks those values with dynamically typed property reads. The embedding keeps
  one constructor per JavaScript type that the reader can produce:
  \<^item> \<^verbatim>\<open>null\<close> (tag type 0), \<^verbatim>\<open>undefined\<close> (the result of reading an absent property);
  \<^item> numbers: every byte, short and int is an integer-valued number, floats and doubles
    are the rational (or special) value of their IEEE-754 bit pattern;
  \<^item> \<^verbatim>\<open>BigInt\<close> for longs; strings as lists of UTF-16 code units;
  \<^item> \<^verbatim>\<open>Int8Array\<close>, \<^verbatim>\<open>Int32Array\<close>, \<^verbatim>\<open>Array\<close>;
  \<^item> plain objects: the own properties in the order JavaScript enumerates them, and the
    prototype when an assignment to \<^verbatim>\<open>__proto__\<close> has replaced it (\<open>None\<close> is the
    default \<^verbatim>\<open>Object.prototype\<close>).
\<close>

type_synonym byte = "8 word"
type_synonym jstring = "nat list"

datatype jsnum = Fin rat | NaN | PosInf | NegInf | NegZero

datatype jsval =
    JUndefined
  | JNull
  | JNum jsnum
  | JBigInt int
  | JString jstring
  | JInt8Array "int list"
  | JInt32Array "int list"
  | JArray "jsval list"
  | JObject "(jstring \<times> jsval) list" "jsval option"

text \<open>
  \<open>RangeError\<close> is what \<^verbatim>\<open>DataView\<close> and the typed-array constructors throw,
  \<open>UnknownTag\<close> and \<open>RootNotCompound\<close> are the two \<^verbatim>\<open>throw new Error\<close> of the reader,
  \<open>TypeError\<close> is what a property read on \<^verbatim>\<open>null\<close>/\<^verbatim>\<open>undefined\<close> or a
  \<^verbatim>\<open>for...of\<close> over a non-iterable throws. \<open>OutsideModel\<close> marks the few places where
  the outcome depends on parts of the language this embedding does not cover (objects
  whose prototype chain was replaced).
\<close>

datatype error = RangeError | UnknownTag nat | RootNotCompound nat | TypeError | OutsideModel

definition lit :: "string \<Rightarrow> jstring" where
  "lit s = map of_char s"

definition jsint :: "int \<Rightarrow> jsval" where
  "jsint i = JNum (Fin (of_int i))"

subsection \<open>Truthiness, typeof, Array.isArray\<close>

fun truthy :: "jsval \<Rightarrow> bool" where
  "truthy JUndefined = False"
| "truthy JNull = False"
| "truthy (JNum n) = (case n of Fin r \<Rightarrow> r \<noteq> 0 | NaN \<Rightarrow> False | NegZero \<Rightarrow> False | _ \<Rightarrow> True)"
| "truthy (JBigInt i) = (i \<noteq> 0)"
| "truthy (JString s) = (s \<noteq> [])"
| "truthy _ = True"

fun isArray :: "jsval \<Rightarrow> bool" where
  "isArray (JArray vs) = True"
| "isArray _ = False"

fun isString :: "jsval \<Rightarrow> bool" where
  "isString (JString s) = True"
| "isString _ = False"

text \<open>\<^verbatim>\<open>typeof v === 'object' && v !== null\<close>\<close>

fun isObject :: "jsval \<Rightarrow> bool" where
  "isObject (JInt8Array xs) = True"
| "isObject (JInt32Array xs) = True"
| "isObject (JArray vs) = True"
| "isObject (JObject kvs proto) = True"
| "isObject _ = False"

text \<open>
  \<^verbatim>\<open>a || b\<close> on results: the right operand is evaluated only when the left one is falsy.
\<close>

definition or_else :: "error + jsval \<Rightarrow> error + jsval \<Rightarrow> error + jsval" where
  "or_else a b = (case a of Inl e \<Rightarrow> Inl e | Inr v \<Rightarrow> if truthy v then Inr v else b)"

subsection \<open>Own property keys and assignment\<close>

text \<open>
  A property name is an array index when it is the canonical decimal form of an integer
  below \<open>2^32 - 1\<close>. JavaScript lists the array-index keys of an object first, in
  ascending numeric order, then the other string keys in the order they were created.
\<close>

definition is_digit :: "nat \<Rightarrow> bool" where
  "is_digit c = (48 \<le> c \<and> c \<le> 57)"

definition dec_value :: "jstring \<Rightarrow> nat" where
  "dec_value k = foldl (\<lambda>n c. 10 * n + (c - 48)) 0 k"

definition array_index :: "jstring \<Rightarrow> nat option" where
  "array_index k =
     (if k \<noteq> [] \<and> list_all is_digit k \<and> (hd k \<noteq> 48 \<or> length k = 1) \<and> dec_value k < 2 ^ 32 - 1
      then Some (dec_value k) else None)"

fun dec_digits :: "nat \<Rightarrow> jstring" where
  "dec_digits n = (if n < 10 then [48 + n] else dec_digits (n div 10) @ [48 + n mod 10])"

declare dec_digits.simps [simp del]

fun update_prop :: "(jstring \<times> jsval) list \<Rightarrow> jstring \<Rightarrow> jsval \<Rightarrow> (jstring \<times> jsval) list" where
  "update_prop [] k v = []"
| "update_prop ((k', v') # kvs) k v =
     (if k' = k then (k, v) # kvs else (k', v') # update_prop kvs k v)"

fun insert_index :: "(jstring \<times> jsval) list \<Rightarrow> nat \<Rightarrow> jstring \<Rightarrow> jsval \<Rightarrow> (jstring \<times> jsval) list" where
  "insert_index [] i k v = [(k, v)]"
| "insert_index ((k', v') # kvs) i k v =
     (case array_index k' of
        Some j \<Rightarrow> if j < i then (k', v') # insert_index kvs i k v else (k, v) # (k', v') # kvs
      | None \<Rightarrow> (k, v) # (k', v') # kvs)"

definition define_prop :: "(jstring \<times> jsval) list \<Rightarrow> jstring \<Rightarrow> jsval \<Rightarrow> (jstring \<times> jsval) list" where
  "define_prop kvs k v =
     (if k \<in> set (map fst kvs) then update_prop kvs k v
      else case array_index k of Some i \<Rightarrow> insert_index kvs i k v | None \<Rightarrow> kvs @ [(k, v)])"

text \<open>Whether a typed array stands in the prototype chain of a value.\<close>

fun typed_array_in_chain :: "jsval \<Rightarrow> bool" where
  "typed_array_in_chain (JInt8Array xs) = True"
| "typed_array_in_chain (JInt32Array xs) = True"
| "typed_array_in_chain (JObject kvs (Some p)) = typed_array_in_chain p"
| "typed_array_in_chain _ = False"

text \<open>
  \<^verbatim>\<open>compound[name] = value\<close> on an object created by \<^verbatim>\<open>{}\<close>. The name \<^verbatim>\<open>__proto__\<close>
  reaches the setter inherited from \<^verbatim>\<open>Object.prototype\<close>: it replaces the prototype
  when the value is an object and does nothing otherwise; no own property is created.
  Any other name updates the own property of that name in place or creates it. With a
  typed array in the prototype chain an assignment can be dropped or can throw (numeric
  names, accessor names): that case is outside the model.
\<close>

fun set_prop :: "jsval \<Rightarrow> jstring \<Rightarrow> jsval \<Rightarrow> error + jsval" where
  "set_prop (JObject kvs proto) k v =
     (if k = lit ''__proto__'' then
        (if isObject v then Inr (JObject kvs (Some v)) else Inr (JObject kvs proto))
      else if typed_array_in_chain (JObject kvs proto) then Inl OutsideModel
      else Inr (JObject (define_prop kvs k v) proto))"
| "set_prop _ k v = Inl TypeError"

subsection \<open>Property reads and enumeration\<close>

text \<open>
  \<^verbatim>\<open>v[k]\<close> for the names the extractor asks for: its fixed field names, the digits
  \<^verbatim>\<open>"0"\<close> to \<^verbatim>\<open>"3"\<close>, and the names a \<^verbatim>\<open>for...in\<close> has enumerated. None of them is
  defined on a built-in prototype, so a miss on the own properties and on the replaced
  prototypes is \<^verbatim>\<open>undefined\<close>. Strings, arrays and typed arrays answer their index
  names. Reading from \<^verbatim>\<open>null\<close> or \<^verbatim>\<open>undefined\<close> throws a \<^verbatim>\<open>TypeError\<close>.
\<close>

fun lookup :: "jsval \<Rightarrow> jstring \<Rightarrow> jsval" where
  "lookup (JString s) k =
     (case array_index k of
        Some i \<Rightarrow> if i < length s then JString [s ! i] else JUndefined
      | None \<Rightarrow> JUndefined)"
| "lookup (JInt8Array xs) k =
     (case array_index k of
        Some i \<Rightarrow> if i < length xs then jsint (xs ! i) else JUndefined
      | None \<Rightarrow> JUndefined)"
| "lookup (JInt32Array xs) k =
     (case array_index k of
        Some i \<Rightarrow> if i < length xs then jsint (xs ! i) else JUndefined
      | None \<Rightarrow> JUndefined)"
| "lookup (JArray vs) k =
     (case array_index k of
        Some i \<Rightarrow> if i < length vs then vs ! i else JUndefined
      | None \<Rightarrow> JUndefined)"
| "lookup (JObject kvs proto) k =
     (case map_of kvs k of
        Some v \<Rightarrow> v
      | None \<Rightarrow> (case proto of None \<Rightarrow> JUndefined | Some p \<Rightarrow> lookup p k))"
| "lookup _ k = JUndefined"

definition get_prop :: "jsval \<Rightarrow> jstring \<Rightarrow> error + jsval" where
  "get_prop v k = (if v = JUndefined \<or> v = JNull then Inl TypeError else Inr (lookup v k))"

text \<open>The names a \<^verbatim>\<open>for...in\<close> visits: own enumerable names, then inherited ones not yet seen.\<close>

fun for_in_keys :: "jsval \<Rightarrow> jstring list" where
  "for_in_keys (JString s) = map dec_digits [0..<length s]"
| "for_in_keys (JInt8Array xs) = map dec_digits [0..<length xs]"
| "for_in_keys (JInt32Array xs) = map dec_digits [0..<length xs]"
| "for_in_keys (JArray vs) = map dec_digits [0..<length vs]"
| "for_in_keys (JObject kvs proto) =
     (case proto of
        None \<Rightarrow> map fst kvs
      | Some p \<Rightarrow> map fst kvs @ filter (\<lambda>k. k \<notin> set (map fst kvs)) (for_in_keys p))"
| "for_in_keys _ = []"

text \<open>A string is iterated by code points: a surrogate pair is one element.\<close>

fun code_points :: "jstring \<Rightarrow> jstring list" where
  "code_points [] = []"
| "code_points [c] = [[c]]"
| "code_points (c # d # cs) =
     (if 55296 \<le> c \<and> c < 56320 \<and> 56320 \<le> d \<and> d < 57344
      then [c, d] # code_points cs else [c] # code_points (d # cs))"

text \<open>
  \<^verbatim>\<open>`${v.length}`\<close> followed by \<^verbatim>\<open>for (const entity of v)\<close>. Arrays, typed arrays and
  strings are iterable and have a numeric length. Numbers, BigInts and plain objects are
  not iterable. An object with a replaced prototype may inherit an iterator: outside the
  model.
\<close>

fun iterate :: "jsval \<Rightarrow> error + jsval list" where
  "iterate (JArray vs) = Inr vs"
| "iterate (JString s) = Inr (map JString (code_points s))"
| "iterate (JInt8Array xs) = Inr (map jsint xs)"
| "iterate (JInt32Array xs) = Inr (map jsint xs)"
| "iterate (JObject kvs (Some p)) = Inl OutsideModel"
| "iterate _ = Inl TypeError"


section \<open>The reader\<close>

subsection \<open>DataView reads\<close>

text \<open>
  The reader owns a \<^verbatim>\<open>DataView\<close> over the whole buffer and an offset. Every \<^verbatim>\<open>get\<close>
  of \<open>n\<close> bytes throws a \<^verbatim>\<open>RangeError\<close> when \<open>offset + n\<close> exceeds the buffer length.
  Each reader below returns its value together with the offset after the read; all
  multi-byte reads are big-endian (\<^verbatim>\<open>littleEndian = false\<close>).
\<close>

definition getBytes :: "byte list \<Rightarrow> nat \<Rightarrow> nat \<Rightarrow> error + byte list" where
  "getBytes buf off n =
     (if off + n \<le> length buf then Inr (take n (drop off buf)) else Inl RangeError)"

definition be_nat :: "byte list \<Rightarrow> nat" where
  "be_nat bs = foldl (\<lambda>n b. 256 * n + unat b) 0 bs"

definition getInt8 :: "byte list \<Rightarrow> nat \<Rightarrow> error + int" where
  "getInt8 buf off = map_sum id (\<lambda>bs. sint (word_of_nat (be_nat bs) :: 8 word)) (getBytes buf off 1)"

definition getUint8 :: "byte list \<Rightarrow> nat \<Rightarrow> error + nat" where
  "getUint8 buf off = map_sum id (\<lambda>bs. unat (word_of_nat (be_nat bs) :: 8 word)) (getBytes buf off 1)"

definition getInt16 :: "byte list \<Rightarrow> nat \<Rightarrow> error + int" where
  "getInt16 buf off = map_sum id (\<lambda>bs. sint (word_of_nat (be_nat bs) :: 16 word)) (getBytes buf off 2)"

definition getInt32 :: "byte list \<Rightarrow> nat \<Rightarrow> error + int" where
  "getInt32 buf off = map_sum id (\<lambda>bs. sint (word_of_nat (be_nat bs) :: 32 word)) (getBytes buf off 4)"

definition getUint32 :: "byte list \<Rightarrow> nat \<Rightarrow> error + int" where
  "getUint32 buf off = map_sum id (\<lambda>bs. uint (word_of_nat (be_nat bs) :: 32 word)) (getBytes buf off 4)"

text \<open>
  The value of an IEEE-754 bit pattern with \<open>ebits\<close> exponent bits and \<open>fbits\<close> fraction
  bits, as the number JavaScript holds after \<^verbatim>\<open>getFloat32\<close> or \<^verbatim>\<open>getFloat64\<close>.
\<close>

definition ieee_value :: "nat \<Rightarrow> nat \<Rightarrow> nat \<Rightarrow> jsnum" where
  "ieee_value ebits fbits w =
     (let s = (w div 2 ^ (ebits + fbits)) mod 2 = 1;
          e = (w div 2 ^ fbits) mod 2 ^ ebits;
          f = w mod 2 ^ fbits;
          bias = 2 ^ (ebits - 1) - 1
      in if e = 2 ^ ebits - 1 then (if f \<noteq> 0 then NaN else if s then NegInf else PosInf)
         else if e = 0 \<and> f = 0 then (if s then NegZero else Fin 0)
         else let m = (if e = 0 then f else 2 ^ fbits + f);
                  x = (if e = 0 then 1 else e);
                  r = (if bias + fbits \<le> x then of_nat m * 2 ^ (x - (bias + fbits))
                       else of_nat m / 2 ^ (bias + fbits - x))
              in Fin (if s then - r else r))"

definition getFloat32 :: "byte list \<Rightarrow> nat \<Rightarrow> error + jsnum" where
  "getFloat32 buf off = map_sum id (\<lambda>bs. ieee_value 8 23 (be_nat bs)) (getBytes buf off 4)"

definition getFloat64 :: "byte list \<Rightarrow> nat \<Rightarrow> error + jsnum" where
  "getFloat64 buf off = map_sum id (\<lambda>bs. ieee_value 11 52 (be_nat bs)) (getBytes buf off 8)"

subsection \<open>TextDecoder\<close>

text \<open>
  \<^verbatim>\<open>new TextDecoder('utf-8').decode(bytes)\<close> is the platform's decoder (WHATWG Encoding):
  it never throws, replaces every ill-formed sequence by U+FFFD, drops one leading byte
  order mark, and yields UTF-16 code units.
\<close>

fun utf8_decoder :: "nat \<Rightarrow> nat \<Rightarrow> nat \<Rightarrow> nat \<Rightarrow> nat list \<Rightarrow> nat list" where
  "utf8_decoder cp needed lo hi [] = (if needed \<noteq> 0 then [65533] else [])"
| "utf8_decoder cp needed lo hi (b # bs) =
     (if needed = 0 then
        (if b \<le> 127 then b # utf8_decoder 0 0 128 191 bs
         else if 194 \<le> b \<and> b \<le> 223 then utf8_decoder (b mod 32) 1 128 191 bs
         else if 224 \<le> b \<and> b \<le> 239 then
           utf8_decoder (b mod 16) 2 (if b = 224 then 160 else 128) (if b = 237 then 159 else 191) bs
         else if 240 \<le> b \<and> b \<le> 244 then
           utf8_decoder (b mod 8) 3 (if b = 240 then 144 else 128) (if b = 244 then 143 else 191) bs
         else 65533 # utf8_decoder 0 0 128 191 bs)
      else if b < lo \<or> hi < b then 65533 # utf8_decoder 0 0 128 191 (b # bs)
      else if needed = 1 then (64 * cp + b mod 64) # utf8_decoder 0 0 128 191 bs
      else utf8_decoder (64 * cp + b mod 64) (needed - 1) 128 191 bs)"

fun strip_bom :: "nat list \<Rightarrow> nat list" where
  "strip_bom (c # cs) = (if c = 65279 then cs else c # cs)"
| "strip_bom [] = []"

definition utf16_units :: "nat \<Rightarrow> nat list" where
  "utf16_units cp =
     (if cp < 65536 then [cp]
      else [55296 + (cp - 65536) div 1024, 56320 + (cp - 65536) mod 1024])"

definition textDecode :: "byte list \<Rightarrow> jstring" where
  "textDecode bytes = concat (map utf16_units (strip_bom (utf8_decoder 0 0 128 191 (map unat bytes))))"

subsection \<open>Scalar readers\<close>

definition readByte :: "byte list \<Rightarrow> nat \<Rightarrow> error + (int \<times> nat)" where
  "readByte buf off = map_sum id (\<lambda>v. (v, off + 1)) (getInt8 buf off)"

definition readUByte :: "byte list \<Rightarrow> nat \<Rightarrow> error + (nat \<times> nat)" where
  "readUByte buf off = map_sum id (\<lambda>v. (v, off + 1)) (getUint8 buf off)"

definition readShort :: "byte list \<Rightarrow> nat \<Rightarrow> error + (int \<times> nat)" where
  "readShort buf off = map_sum id (\<lambda>v. (v, off + 2)) (getInt16 buf off)"

definition readInt :: "byte list \<Rightarrow> nat \<Rightarrow> error + (int \<times> nat)" where
  "readInt buf off = map_sum id (\<lambda>v. (v, off + 4)) (getInt32 buf off)"

text \<open>
  \<^verbatim>\<open>(BigInt(high) << 32n) | BigInt(low)\<close>: BigInt shifts and ors act on the unbounded
  two's complement form, as \<open>push_bit\<close> and \<open>OR\<close> do on \<open>int\<close>.
\<close>

definition readLong :: "byte list \<Rightarrow> nat \<Rightarrow> error + (int \<times> nat)" where
  "readLong buf off =
     (case getInt32 buf off of Inl e \<Rightarrow> Inl e
      | Inr high \<Rightarrow>
         (case getUint32 buf (off + 4) of Inl e \<Rightarrow> Inl e
          | Inr low \<Rightarrow> Inr (push_bit 32 high OR low, off + 8)))"

definition readFloat :: "byte list \<Rightarrow> nat \<Rightarrow> error + (jsnum \<times> nat)" where
  "readFloat buf off = map_sum id (\<lambda>v. (v, off + 4)) (getFloat32 buf off)"

definition readDouble :: "byte list \<Rightarrow> nat \<Rightarrow> error + (jsnum \<times> nat)" where
  "readDouble buf off = map_sum id (\<lambda>v. (v, off + 8)) (getFloat64 buf off)"

text \<open>
  \<^verbatim>\<open>new Uint8Array(buffer, offset, length)\<close> throws a \<^verbatim>\<open>RangeError\<close> when the view would
  end past the buffer.
\<close>

definition readString :: "byte list \<Rightarrow> nat \<Rightarrow> error + (jstring \<times> nat)" where
  "readString buf off =
     (case readShort buf off of Inl e \<Rightarrow> Inl e
      | Inr (len, off1) \<Rightarrow>
         if len \<le> 0 then Inr ([], off1)
         else (case getBytes buf off1 (nat len) of Inl e \<Rightarrow> Inl e
               | Inr bytes \<Rightarrow> Inr (textDecode bytes, off1 + nat len)))"


subsection \<open>Array readers\<close>

text \<open>
  \<^verbatim>\<open>new Int8Array(length)\<close> and \<^verbatim>\<open>new Int32Array(length)\<close> throw a \<^verbatim>\<open>RangeError\<close> for a
  negative length and are zero-filled otherwise; the loop then assigns element \<open>i\<close>.
  \<^verbatim>\<open>readLongArray\<close> pushes onto an ordinary array, so a negative length gives \<^verbatim>\<open>[]\<close>.
  The model allocates and pushes without limit: the largest array an engine can hold is
  not part of it.
\<close>

function readByteArray_loop :: "int \<Rightarrow> int \<Rightarrow> int list \<Rightarrow> byte list \<Rightarrow> nat \<Rightarrow> error + (int list \<times> nat)" where
  "readByteArray_loop len i array buf off =
     (if i < len then
        (case readByte buf off of Inl e \<Rightarrow> Inl e
         | Inr (v, off') \<Rightarrow> readByteArray_loop len (i + 1) (array[nat i := v]) buf off')
      else Inr (array, off))"
  by pat_completeness auto
termination
  by (relation "measure (\<lambda>(len, i, array, buf, off). nat (len - i))") auto

declare readByteArray_loop.simps [simp del]

definition readByteArray :: "byte list \<Rightarrow> nat \<Rightarrow> error + (int list \<times> nat)" where
  "readByteArray buf off =
     (case readInt buf off of Inl e \<Rightarrow> Inl e
      | Inr (len, off1) \<Rightarrow>
         if len < 0 then Inl RangeError
         else readByteArray_loop len 0 (replicate (nat len) 0) buf off1)"

function readIntArray_loop :: "int \<Rightarrow> int \<Rightarrow> int list \<Rightarrow> byte list \<Rightarrow> nat \<Rightarrow> error + (int list \<times> nat)" where
  "readIntArray_loop len i array buf off =
     (if i < len then
        (case readInt buf off of Inl e \<Rightarrow> Inl e
         | Inr (v, off') \<Rightarrow> readIntArray_loop len (i + 1) (array[nat i := v]) buf off')
      else Inr (array, off))"
  by pat_completeness auto
termination
  by (relation "measure (\<lambda>(len, i, array, buf, off). nat (len - i))") auto

declare readIntArray_loop.simps [simp del]

definition readIntArray :: "byte list \<Rightarrow> nat \<Rightarrow> error + (int list \<times> nat)" where
  "readIntArray buf off =
     (case readInt buf off of Inl e \<Rightarrow> Inl e
      | Inr (len, off1) \<Rightarrow>
         if len < 0 then Inl RangeError
         else readIntArray_loop len 0 (replicate (nat len) 0) buf off1)"

function readLongArray_loop :: "int \<Rightarrow> int \<Rightarrow> jsval list \<Rightarrow> byte list \<Rightarrow> nat \<Rightarrow> error + (jsval list \<times> nat)" where
  "readLongArray_loop len i array buf off =
     (if i < len then
        (case readLong buf off of Inl e \<Rightarrow> Inl e
         | Inr (v, off') \<Rightarrow> readLongArray_loop len (i + 1) (array @ [JBigInt v]) buf off')
      else Inr (array, off))"
  by pat_completeness auto
termination
  by (relation "measure (\<lambda>(len, i, array, buf, off). nat (len - i))") auto

declare readLongArray_loop.simps [simp del]

definition readLongArray :: "byte list \<Rightarrow> nat \<Rightarrow> error + (jsval list \<times> nat)" where
  "readLongArray buf off =
     (case readInt buf off of Inl e \<Rightarrow> Inl e
      | Inr (len, off1) \<Rightarrow> readLongArray_loop len 0 [] buf off1)"

subsection \<open>Tags, lists and compounds\<close>

text \<open>
  \<^verbatim>\<open>readTag\<close>, \<^verbatim>\<open>readList\<close> and \<^verbatim>\<open>readCompound\<close> call each other. The \<^verbatim>\<open>for\<close> loop of
  \<^verbatim>\<open>readList\<close> and the \<^verbatim>\<open>while (true)\<close> loop of \<^verbatim>\<open>readCompound\<close> are the two loop
  functions; the latter carries the object built so far. \<^verbatim>\<open>list.push\<close> is an append
  without limit and the calls nest without limit: the bounds an engine puts on the
  length of an array and on the depth of calls are not part of the model.
\<close>

function readTag :: "nat \<Rightarrow> byte list \<Rightarrow> nat \<Rightarrow> error + (jsval \<times> nat)"
  and readList :: "byte list \<Rightarrow> nat \<Rightarrow> error + (jsval \<times> nat)"
  and readList_loop :: "nat \<Rightarrow> int \<Rightarrow> int \<Rightarrow> jsval list \<Rightarrow> byte list \<Rightarrow> nat \<Rightarrow> error + (jsval list \<times> nat)"
  and readCompound :: "byte list \<Rightarrow> nat \<Rightarrow> error + (jsval \<times> nat)"
  and readCompound_loop :: "jsval \<Rightarrow> byte list \<Rightarrow> nat \<Rightarrow> error + (jsval \<times> nat)"
where
  "readTag tagType buf off =
     (if tagType = 0 then Inr (JNull, off)
      else if tagType = 1 then map_sum id (\<lambda>(v, off'). (jsint v, off')) (readByte buf off)
      else if tagType = 2 then map_sum id (\<lambda>(v, off'). (jsint v, off')) (readShort buf off)
      else if tagType = 3 then map_sum id (\<lambda>(v, off'). (jsint v, off')) (readInt buf off)
      else if tagType = 4 then map_sum id (\<lambda>(v, off'). (JBigInt v, off')) (readLong buf off)
      else if tagType = 5 then map_sum id (\<lambda>(v, off'). (JNum v, off')) (readFloat buf off)
      else if tagType = 6 then map_sum id (\<lambda>(v, off'). (JNum v, off')) (readDouble buf off)
      else if tagType = 7 then map_sum id (\<lambda>(v, off'). (JInt8Array v, off')) (readByteArray buf off)
      else if tagType = 8 then map_sum id (\<lambda>(v, off'). (JString v, off')) (readString buf off)
      else if tagType = 9 then readList buf off
      else if tagType = 10 then readCompound buf off
      else if tagType = 11 then map_sum id (\<lambda>(v, off'). (JInt32Array v, off')) (readIntArray buf off)
      else if tagType = 12 then map_sum id (\<lambda>(v, off'). (JArray v, off')) (readLongArray buf off)
      else Inl (UnknownTag tagType))"
| "readList buf off =
     (case readUByte buf off of Inl e \<Rightarrow> Inl e
      | Inr (itemType, off1) \<Rightarrow>
         (case readInt buf off1 of Inl e \<Rightarrow> Inl e
          | Inr (len, off2) \<Rightarrow>
             (case readList_loop itemType len 0 [] buf off2 of Inl e \<Rightarrow> Inl e
              | Inr (list, off3) \<Rightarrow> Inr (JArray list, off3))))"
| "readList_loop itemType len i list buf off =
     (if i < len then
        (case readTag itemType buf off of Inl e \<Rightarrow> Inl e
         | Inr (v, off') \<Rightarrow> readList_loop itemType len (i + 1) (list @ [v]) buf off')
      else Inr (list, off))"
| "readCompound buf off = readCompound_loop (JObject [] None) buf off"
| "readCompound_loop compound buf off =
     (case readUByte buf off of Inl e \<Rightarrow> Inl e
      | Inr (tagType, off1) \<Rightarrow>
         if tagType = 0 then Inr (compound, off1)
         else (case readString buf off1 of Inl e \<Rightarrow> Inl e
               | Inr (name, off2) \<Rightarrow>
                  (case readTag tagType buf off2 of Inl e \<Rightarrow> Inl e
                   | Inr (v, off3) \<Rightarrow>
                      (case set_prop compound name v of Inl e \<Rightarrow> Inl e
                       | Inr compound' \<Rightarrow> readCompound_loop compound' buf off3))))"
  by pat_completeness auto


text \<open>Offsets only grow: the facts the termination argument of the reader needs.\<close>

lemma getBytes_Inr: "getBytes buf off n = Inr bs \<longleftrightarrow> off + n \<le> length buf \<and> bs = take n (drop off buf)"
  by (auto simp: getBytes_def)

lemma getBytes_Inl: "getBytes buf off n = Inl e \<longleftrightarrow> length buf < off + n \<and> e = RangeError"
  by (auto simp: getBytes_def)

lemma readUByte_off:
  "readUByte buf off = Inr (v, off') \<Longrightarrow> off' = off + 1 \<and> off + 1 \<le> length buf"
  by (auto simp: readUByte_def getUint8_def getBytes_def split: if_splits)

lemma readByte_off:
  "readByte buf off = Inr (v, off') \<Longrightarrow> off' = off + 1 \<and> off + 1 \<le> length buf"
  by (auto simp: readByte_def getInt8_def getBytes_def split: if_splits)

lemma readShort_off:
  "readShort buf off = Inr (v, off') \<Longrightarrow> off' = off + 2 \<and> off + 2 \<le> length buf"
  by (auto simp: readShort_def getInt16_def getBytes_def split: if_splits)

lemma readInt_off:
  "readInt buf off = Inr (v, off') \<Longrightarrow> off' = off + 4 \<and> off + 4 \<le> length buf"
  by (auto simp: readInt_def getInt32_def getBytes_def split: if_splits)

lemma readLong_off:
  "readLong buf off = Inr (v, off') \<Longrightarrow> off' = off + 8 \<and> off + 8 \<le> length buf"
  by (auto simp: readLong_def getInt32_def getUint32_def getBytes_def split: if_splits sum.splits)

lemma readFloat_off:
  "readFloat buf off = Inr (v, off') \<Longrightarrow> off' = off + 4 \<and> off + 4 \<le> length buf"
  by (auto simp: readFloat_def getFloat32_def getBytes_def split: if_splits)

lemma readDouble_off:
  "readDouble buf off = Inr (v, off') \<Longrightarrow> off' = off + 8 \<and> off + 8 \<le> length buf"
  by (auto simp: readDouble_def getFloat64_def getBytes_def split: if_splits)

lemma readString_off:
  "readString buf off = Inr (v, off') \<Longrightarrow> off + 2 \<le> off' \<and> off' \<le> length buf"
  by (auto simp: readString_def getBytes_def split: if_splits sum.splits dest!: readShort_off)

lemma readByteArray_loop_off:
  "readByteArray_loop len i array buf off = Inr (v, off') \<Longrightarrow> off \<le> off'"
proof (induction len i array buf off rule: readByteArray_loop.induct)
  case (1 len i array buf off)
  show ?case
  proof (cases "i < len")
    case True
    with "1.prems" obtain x off1 where r: "readByte buf off = Inr (x, off1)"
      and l: "readByteArray_loop len (i + 1) (array[nat i := x]) buf off1 = Inr (v, off')"
      by (auto simp: readByteArray_loop.simps [of len i] split: sum.splits)
    from "1.IH" [OF True r refl l] readByte_off [OF r] show ?thesis by simp
  next
    case False
    with "1.prems" show ?thesis by (simp add: readByteArray_loop.simps [of len i])
  qed
qed

lemma readIntArray_loop_off:
  "readIntArray_loop len i array buf off = Inr (v, off') \<Longrightarrow> off \<le> off'"
proof (induction len i array buf off rule: readIntArray_loop.induct)
  case (1 len i array buf off)
  show ?case
  proof (cases "i < len")
    case True
    with "1.prems" obtain x off1 where r: "readInt buf off = Inr (x, off1)"
      and l: "readIntArray_loop len (i + 1) (array[nat i := x]) buf off1 = Inr (v, off')"
      by (auto simp: readIntArray_loop.simps [of len i] split: sum.splits)
    from "1.IH" [OF True r refl l] readInt_off [OF r] show ?thesis by simp
  next
    case False
    with "1.prems" show ?thesis by (simp add: readIntArray_loop.simps [of len i])
  qed
qed

lemma readLongArray_loop_off:
  "readLongArray_loop len i array buf off = Inr (v, off') \<Longrightarrow> off \<le> off'"
proof (induction len i array buf off rule: readLongArray_loop.induct)
  case (1 len i array buf off)
  show ?case
  proof (cases "i < len")
    case True
    with "1.prems" obtain x off1 where r: "readLong buf off = Inr (x, off1)"
      and l: "readLongArray_loop len (i + 1) (array @ [JBigInt x]) buf off1 = Inr (v, off')"
      by (auto simp: readLongArray_loop.simps [of len i] split: sum.splits)
    from "1.IH" [OF True r refl l] readLong_off [OF r] show ?thesis by simp
  next
    case False
    with "1.prems" show ?thesis by (simp add: readLongArray_loop.simps [of len i])
  qed
qed

lemma readByteArray_off: "readByteArray buf off = Inr (v, off') \<Longrightarrow> off \<le> off'"
  by (auto simp: readByteArray_def split: sum.splits if_splits
      dest!: readInt_off readByteArray_loop_off)

lemma readIntArray_off: "readIntArray buf off = Inr (v, off') \<Longrightarrow> off \<le> off'"
  by (auto simp: readIntArray_def split: sum.splits if_splits
      dest!: readInt_off readIntArray_loop_off)

lemma readLongArray_off: "readLongArray buf off = Inr (v, off') \<Longrightarrow> off \<le> off'"
  by (auto simp: readLongArray_def split: sum.splits if_splits
      dest!: readInt_off readLongArray_loop_off)

lemma map_sum_id_Inr: "map_sum id f x = Inr y \<longleftrightarrow> (\<exists>z. x = Inr z \<and> y = f z)"
  by (cases x) auto

lemma map_sum_id_Inl: "map_sum id f x = Inl e \<longleftrightarrow> x = Inl e"
  by (cases x) auto

lemma read_offsets_dom:
  "readTag_readList_readList_loop_readCompound_readCompound_loop_dom (Inl (Inl (t, buf, off))) \<Longrightarrow>
     readTag t buf off = Inr (v, off') \<Longrightarrow> off \<le> off'"
  "readTag_readList_readList_loop_readCompound_readCompound_loop_dom (Inl (Inr (buf, off))) \<Longrightarrow>
     readList buf off = Inr (v, off') \<Longrightarrow> off \<le> off'"
  "readTag_readList_readList_loop_readCompound_readCompound_loop_dom (Inr (Inl (it, len, i, l, buf, off))) \<Longrightarrow>
     readList_loop it len i l buf off = Inr (vs, off') \<Longrightarrow> off \<le> off'"
  "readTag_readList_readList_loop_readCompound_readCompound_loop_dom (Inr (Inr (Inl (buf, off)))) \<Longrightarrow>
     readCompound buf off = Inr (v, off') \<Longrightarrow> off \<le> off'"
  "readTag_readList_readList_loop_readCompound_readCompound_loop_dom (Inr (Inr (Inr (c, buf, off)))) \<Longrightarrow>
     readCompound_loop c buf off = Inr (v, off') \<Longrightarrow> off \<le> off'"
proof (induction t buf off and buf off and it len i l buf off and buf off and c buf off
       arbitrary: v off' and v off' and vs off' and v off' and v off'
       rule: readTag_readList_readList_loop_readCompound_readCompound_loop.pinduct)
  case (1 tagType buf off)
  have eq: "readTag tagType buf off =
     (if tagType = 0 then Inr (JNull, off)
      else if tagType = 1 then map_sum id (\<lambda>(v, off'). (jsint v, off')) (readByte buf off)
      else if tagType = 2 then map_sum id (\<lambda>(v, off'). (jsint v, off')) (readShort buf off)
      else if tagType = 3 then map_sum id (\<lambda>(v, off'). (jsint v, off')) (readInt buf off)
      else if tagType = 4 then map_sum id (\<lambda>(v, off'). (JBigInt v, off')) (readLong buf off)
      else if tagType = 5 then map_sum id (\<lambda>(v, off'). (JNum v, off')) (readFloat buf off)
      else if tagType = 6 then map_sum id (\<lambda>(v, off'). (JNum v, off')) (readDouble buf off)
      else if tagType = 7 then map_sum id (\<lambda>(v, off'). (JInt8Array v, off')) (readByteArray buf off)
      else if tagType = 8 then map_sum id (\<lambda>(v, off'). (JString v, off')) (readString buf off)
      else if tagType = 9 then readList buf off
      else if tagType = 10 then readCompound buf off
      else if tagType = 11 then map_sum id (\<lambda>(v, off'). (JInt32Array v, off')) (readIntArray buf off)
      else if tagType = 12 then map_sum id (\<lambda>(v, off'). (JArray v, off')) (readLongArray buf off)
      else Inl (UnknownTag tagType))"
    using "1.hyps" by (rule readTag.psimps)
  show ?case
  proof (cases "tagType = 9 \<or> tagType = 10")
    case True
    then show ?thesis
    proof
      assume t: "tagType = 9"
      with "1.prems" eq have "readList buf off = Inr (v, off')" by simp
      with "1.IH"(1) t show ?thesis by simp
    next
      assume t: "tagType = 10"
      with "1.prems" eq have "readCompound buf off = Inr (v, off')" by simp
      with "1.IH"(2) t show ?thesis by simp
    qed
  next
    case False
    with "1.prems" eq show ?thesis
      by (auto simp: map_sum_id_Inr split: if_splits
          dest!: readByte_off readShort_off readInt_off readLong_off readFloat_off readDouble_off
                 readString_off readByteArray_off readIntArray_off readLongArray_off)
  qed
next
  case (2 buf off)
  from "2.prems" "2.hyps" obtain itemType off1 len off2 list where
    u: "readUByte buf off = Inr (itemType, off1)" and n: "readInt buf off1 = Inr (len, off2)"
    and l: "readList_loop itemType len 0 [] buf off2 = Inr (list, off')"
    by (auto simp: readList.psimps split: sum.splits)
  from "2.IH" [OF u refl n refl l] readUByte_off [OF u] readInt_off [OF n]
  show ?case by simp
next
  case (3 itemType len i list buf off)
  show ?case
  proof (cases "i < len")
    case True
    with "3.prems" "3.hyps" obtain x off1 where
      r: "readTag itemType buf off = Inr (x, off1)"
      and l: "readList_loop itemType len (i + 1) (list @ [x]) buf off1 = Inr (vs, off')"
      by (auto simp: readList_loop.psimps split: sum.splits)
    from "3.IH"(1) [OF True r] "3.IH"(2) [OF True r refl l] show ?thesis by simp
  next
    case False
    with "3.prems" "3.hyps" show ?thesis by (simp add: readList_loop.psimps)
  qed
next
  case (4 buf off)
  from "4.prems" "4.hyps" have "readCompound_loop (JObject [] None) buf off = Inr (v, off')"
    by (simp add: readCompound.psimps)
  then show ?case by (rule "4.IH")
next
  case (5 compound buf off)
  from "5.prems" "5.hyps" obtain tagType off1 where
    u: "readUByte buf off = Inr (tagType, off1)"
    by (auto simp: readCompound_loop.psimps split: sum.splits)
  show ?case
  proof (cases "tagType = 0")
    case True
    with "5.prems" "5.hyps" u readUByte_off [OF u] show ?thesis
      by (simp add: readCompound_loop.psimps)
  next
    case False
    with "5.prems" "5.hyps" u obtain name off2 x off3 compound' where
      n: "readString buf off1 = Inr (name, off2)"
      and r: "readTag tagType buf off2 = Inr (x, off3)"
      and p: "set_prop compound name x = Inr compound'"
      and l: "readCompound_loop compound' buf off3 = Inr (v, off')"
      by (auto simp: readCompound_loop.psimps split: sum.splits)
    from "5.IH"(1) [OF u refl False n refl r] "5.IH"(2) [OF u refl False n refl r refl p l]
      readUByte_off [OF u] readString_off [OF n]
    show ?thesis by simp
  qed
qed

termination readTag
  apply (relation "inv_image (less_than <*lex*> less_than) (\<lambda>x. case x of
      Inl (Inl (t, buf, off)) \<Rightarrow> (length buf - off, 2)
    | Inl (Inr (buf, off)) \<Rightarrow> (length buf - off, 1)
    | Inr (Inl (it, len, i, l, buf, off)) \<Rightarrow> (length buf - off, 3 + nat (len - i))
    | Inr (Inr (Inl (buf, off))) \<Rightarrow> (length buf - off, 1)
    | Inr (Inr (Inr (c, buf, off))) \<Rightarrow> (length buf - off, 0))")
  subgoal by (intro wf_inv_image wf_lex_prod wf_less_than)
  subgoal by simp
  subgoal by simp
  subgoal by (auto dest!: readUByte_off readInt_off)
  subgoal by simp
  subgoal for itemType len i list buf off x v off'
    using read_offsets_dom(1) [of itemType buf off v off'] by auto
  subgoal by simp
  subgoal by (auto dest!: readUByte_off readString_off)
  subgoal for compound buf off x tagType off1 xa name off2 xb v off3 xc
    using read_offsets_dom(1) [of tagType buf off2 v off3]
    by (auto dest!: readUByte_off readString_off)
  done

declare readTag.simps [simp del] readList.simps [simp del] readList_loop.simps [simp del]
  readCompound.simps [simp del] readCompound_loop.simps [simp del]

text \<open>
  The result of \<^verbatim>\<open>parse\<close>, \<^verbatim>\<open>{ name: rootName, value: root }\<close>, together with the
  offset the reader is left at.
\<close>

record document =
  doc_name :: jstring
  doc_value :: jsval

definition parse :: "byte list \<Rightarrow> error + (document \<times> nat)" where
  "parse buf =
     (case readUByte buf 0 of Inl e \<Rightarrow> Inl e
      | Inr (rootType, off1) \<Rightarrow>
         if rootType \<noteq> 10 then Inl (RootNotCompound rootType)
         else (case readString buf off1 of Inl e \<Rightarrow> Inl e
               | Inr (rootName, off2) \<Rightarrow>
                  (case readCompound buf off2 of Inl e \<Rightarrow> Inl e
                   | Inr (rootCompound, off3) \<Rightarrow>
                      Inr (\<lparr>doc_name = rootName, doc_value = rootCompound\<rparr>, off3))))"

section \<open>The extractor\<close>

subsection \<open>Numbers to hexadecimal\<close>

definition hex_digit :: "nat \<Rightarrow> nat" where
  "hex_digit d = (if d < 10 then 48 + d else 87 + d)"

fun hex_digits :: "nat \<Rightarrow> jstring" where
  "hex_digits n = (if n < 16 then [hex_digit n] else hex_digits (n div 16) @ [hex_digit (n mod 16)])"

declare hex_digits.simps [simp del]

text \<open>\<^verbatim>\<open>s.padStart(8, '0')\<close> and \<^verbatim>\<open>s.slice(a, b)\<close> for \<open>0 \<le> a \<le> b\<close>.\<close>

definition padStart8 :: "jstring \<Rightarrow> jstring" where
  "padStart8 s = replicate (8 - length s) 48 @ s"

definition slice :: "jstring \<Rightarrow> nat \<Rightarrow> nat \<Rightarrow> jstring" where
  "slice s a b = take (b - a) (drop a s)"

text \<open>\<^verbatim>\<open>BigInt.prototype.toString(16)\<close>; also \<^verbatim>\<open>Number.prototype.toString(16)\<close> on an integer.\<close>

definition int_toString16 :: "int \<Rightarrow> jstring" where
  "int_toString16 i = (if i < 0 then 45 # hex_digits (nat (- i)) else hex_digits (nat i))"

text \<open>The number of binary digits of a natural number.\<close>

fun bit_len :: "nat \<Rightarrow> nat" where
  "bit_len n = (if n = 0 then 0 else Suc (bit_len (n div 2)))"

declare bit_len.simps [simp del]

text \<open>
  \<^verbatim>\<open>Number.prototype.toString(16)\<close>. A number of the model is a double. The language
  standard fixes the result for \<^verbatim>\<open>NaN\<close>, the infinities and the zeros, and leaves the
  digits of other numbers to the implementation. For an integer below \<open>2^53\<close> every
  engine prints the digits of the integer. For the other numbers the digits are those
  of V8 (Node, Chrome): the fraction is printed exactly, which for a double takes at most
  269 digits, and for a magnitude of \<open>2^53\<close> or more the hexadecimal digits that lie
  below the 53-bit significand, rounded up to whole digits, are printed as \<^verbatim>\<open>0\<close>.
\<close>

fun frac_digits16 :: "nat \<Rightarrow> rat \<Rightarrow> jstring" where
  "frac_digits16 n f =
     (if n = 0 \<or> f = 0 then []
      else let d = nat \<lfloor>16 * f\<rfloor> in hex_digit d # frac_digits16 (n - 1) (16 * f - of_nat d))"

declare frac_digits16.simps [simp del]

definition int_digits16 :: "nat \<Rightarrow> jstring" where
  "int_digits16 n =
     (if n < 2 ^ 53 then hex_digits n
      else let k = (bit_len n - 53 + 3) div 4 in hex_digits (n div 16 ^ k) @ replicate k 48)"

definition double_toString16 :: "rat \<Rightarrow> jstring" where
  "double_toString16 r =
     (let a = \<bar>r\<bar>;
          i = nat \<lfloor>a\<rfloor>;
          f = a - of_nat i;
          s = int_digits16 i @ (if f = 0 then [] else 46 # frac_digits16 269 f)
      in if r < 0 then 45 # s else s)"

definition number_toString16 :: "jsnum \<Rightarrow> error + jstring" where
  "number_toString16 n =
     (case n of
        NaN \<Rightarrow> Inr (lit ''NaN'')
      | PosInf \<Rightarrow> Inr (lit ''Infinity'')
      | NegInf \<Rightarrow> Inr (lit ''-Infinity'')
      | NegZero \<Rightarrow> Inr (lit ''0'')
      | Fin r \<Rightarrow> if of_int \<lfloor>r\<rfloor> = r \<and> \<bar>r\<bar> < 2 ^ 53 then Inr (int_toString16 \<lfloor>r\<rfloor>)
                 else Inr (double_toString16 r))"

text \<open>\<^verbatim>\<open>Number(n)\<close> for a BigInt: the nearest double, ties to even.\<close>

definition bigint_to_number :: "int \<Rightarrow> jsnum" where
  "bigint_to_number i =
     (let a = nat \<bar>i\<bar> in
      if a < 2 ^ 53 then Fin (of_int i)
      else let e = bit_len a - 53;
               q = a div 2 ^ e;
               r = a mod 2 ^ e;
               q' = (if 2 ^ (e - 1) < r \<or> (r = 2 ^ (e - 1) \<and> odd q) then q + 1 else q)
           in if 2 ^ 1024 \<le> q' * 2 ^ e then (if i < 0 then NegInf else PosInf)
              else Fin (of_int (sgn i * int (q' * 2 ^ e))))"

text \<open>\<^verbatim>\<open>x >>> 0\<close> on a number: truncate towards zero, then reduce modulo \<open>2^32\<close>.\<close>

definition toUint32 :: "jsnum \<Rightarrow> nat" where
  "toUint32 n =
     (case n of
        Fin r \<Rightarrow> nat ((if r < 0 then - \<lfloor>- r\<rfloor> else \<lfloor>r\<rfloor>) mod 2 ^ 32)
      | _ \<Rightarrow> 0)"

text \<open>
  The nearest double of a rational other than 0, ties to even: the significand has 53
  bits, the smallest step is \<open>2^-1074\<close>, and \<open>2^1024\<close> and more is infinite.
\<close>

definition pow2 :: "int \<Rightarrow> rat" where
  "pow2 k = (if 0 \<le> k then 2 ^ nat k else 1 / 2 ^ nat (- k))"

definition exponent2 :: "rat \<Rightarrow> int" where
  "exponent2 a =
     (if 1 \<le> a then int (bit_len (nat \<lfloor>a\<rfloor>)) - 1
      else - int (bit_len (nat (\<lceil>1 / a\<rceil> - 1))))"

definition round_double :: "rat \<Rightarrow> jsnum" where
  "round_double r =
     (let a = \<bar>r\<bar>;
          g = max (exponent2 a - 52) (- 1074);
          m = a / pow2 g;
          q = \<lfloor>m\<rfloor>;
          f = m - of_int q;
          q' = (if 1 / 2 < f \<or> (f = 1 / 2 \<and> odd q) then q + 1 else q);
          v = of_int q' * pow2 g
      in if 2 ^ 1024 \<le> v then (if r < 0 then NegInf else PosInf)
         else if q' = 0 then (if r < 0 then NegZero else Fin 0)
         else Fin (if r < 0 then - v else v))"

text \<open>
  \<^verbatim>\<open>ToNumber\<close> of a string, which \<^verbatim>\<open>value >>> 0\<close> applies to a string operand: white space
  and line terminators are trimmed; the empty string is 0; a literal is
  \<^verbatim>\<open>0x\<close>, \<^verbatim>\<open>0o\<close> or \<^verbatim>\<open>0b\<close> with digits, or an optional sign followed by \<^verbatim>\<open>Infinity\<close> or by
  decimal digits with an optional fraction and exponent; anything else is \<^verbatim>\<open>NaN\<close>.
\<close>

definition is_space :: "nat \<Rightarrow> bool" where
  "is_space c =
     (c \<in> {9, 10, 11, 12, 13, 32, 160, 5760, 8232, 8233, 8239, 8287, 12288, 65279} \<or>
      (8192 \<le> c \<and> c \<le> 8202))"

definition trim :: "jstring \<Rightarrow> jstring" where
  "trim s = rev (dropWhile is_space (rev (dropWhile is_space s)))"

definition digit_of :: "nat \<Rightarrow> nat" where
  "digit_of c = (if 48 \<le> c \<and> c \<le> 57 then c - 48
                 else if 97 \<le> c \<and> c \<le> 122 then c - 87
                 else if 65 \<le> c \<and> c \<le> 90 then c - 55 else 36)"

definition radix_value :: "nat \<Rightarrow> jstring \<Rightarrow> nat" where
  "radix_value b ds = foldl (\<lambda>n c. b * n + digit_of c) 0 ds"

definition radix_literal :: "nat \<Rightarrow> jstring \<Rightarrow> jsnum" where
  "radix_literal b ds =
     (if ds \<noteq> [] \<and> list_all (\<lambda>c. digit_of c < b) ds
      then (if radix_value b ds = 0 then Fin 0 else round_double (of_nat (radix_value b ds)))
      else NaN)"

definition exponent_part :: "jstring \<Rightarrow> int option" where
  "exponent_part s =
     (case s of
        [] \<Rightarrow> Some 0
      | c # t \<Rightarrow>
         if c = 101 \<or> c = 69 then
           (let neg = (t \<noteq> [] \<and> hd t = 45);
                ds = (if t \<noteq> [] \<and> (hd t = 45 \<or> hd t = 43) then tl t else t)
            in if ds \<noteq> [] \<and> list_all is_digit ds
               then Some (if neg then - int (dec_value ds) else int (dec_value ds))
               else None)
         else None)"

definition decimal_literal :: "jstring \<Rightarrow> jsnum" where
  "decimal_literal s =
     (let neg = (s \<noteq> [] \<and> hd s = 45);
          u = (if s \<noteq> [] \<and> (hd s = 45 \<or> hd s = 43) then tl s else s)
      in if u = lit ''Infinity'' then (if neg then NegInf else PosInf)
         else
           let ip = takeWhile is_digit u;
               r1 = dropWhile is_digit u;
               fp = (case r1 of c # t \<Rightarrow> if c = 46 then takeWhile is_digit t else [] | [] \<Rightarrow> []);
               r2 = (case r1 of c # t \<Rightarrow> if c = 46 then dropWhile is_digit t else r1 | [] \<Rightarrow> [])
           in if ip = [] \<and> fp = [] then NaN
              else (case exponent_part r2 of
                      None \<Rightarrow> NaN
                    | Some e \<Rightarrow>
                       let mv = of_nat (dec_value (ip @ fp)) *
                                  (if 0 \<le> e - int (length fp)
                                   then 10 ^ nat (e - int (length fp))
                                   else 1 / 10 ^ nat (int (length fp) - e))
                       in if mv = 0 then (if neg then NegZero else Fin 0)
                          else round_double (if neg then - mv else mv)))"

definition string_to_number :: "jstring \<Rightarrow> jsnum" where
  "string_to_number str =
     (let s = trim str
      in if s = [] then Fin 0
         else if 2 \<le> length s \<and> hd s = 48 \<and> hd (tl s) \<in> {120, 88} then radix_literal 16 (drop 2 s)
         else if 2 \<le> length s \<and> hd s = 48 \<and> hd (tl s) \<in> {111, 79} then radix_literal 8 (drop 2 s)
         else if 2 \<le> length s \<and> hd s = 48 \<and> hd (tl s) \<in> {98, 66} then radix_literal 2 (drop 2 s)
         else decimal_literal s)"

text \<open>
  \<^verbatim>\<open>ToNumber\<close> of an object of the decoded tree, by way of its string. A typed array and
  an array inherit a \<^verbatim>\<open>toString\<close> that joins the elements with commas, \<^verbatim>\<open>null\<close> and
  \<^verbatim>\<open>undefined\<close> giving the empty string: no element gives the empty string and 0, one
  element gives the number its own string denotes, and two or more give a string with
  a comma, which is \<^verbatim>\<open>NaN\<close>. The string of a number denotes that number (\<open>-0\<close> prints as
  \<^verbatim>\<open>0\<close>), the decimal string of a BigInt denotes its nearest double. A compound is
  \<^verbatim>\<open>[object Object]\<close>, which is \<^verbatim>\<open>NaN\<close>, unless it has a member named \<^verbatim>\<open>toString\<close>: that
  member is not a function, so no method yields a primitive and the conversion throws a
  \<^verbatim>\<open>TypeError\<close>. An object whose prototype was replaced is outside the model.
\<close>

definition ints_number :: "int list \<Rightarrow> jsnum" where
  "ints_number xs = (case xs of [] \<Rightarrow> Fin 0 | [x] \<Rightarrow> Fin (of_int x) | _ \<Rightarrow> NaN)"

fun element_number :: "jsval \<Rightarrow> error + jsnum"
  and elements_numbers :: "jsval list \<Rightarrow> error + jsnum list"
where
  "element_number JUndefined = Inr (Fin 0)"
| "element_number JNull = Inr (Fin 0)"
| "element_number (JNum n) = Inr (if n = NegZero then Fin 0 else n)"
| "element_number (JBigInt i) = Inr (bigint_to_number i)"
| "element_number (JString s) = Inr (string_to_number s)"
| "element_number (JInt8Array xs) = Inr (ints_number xs)"
| "element_number (JInt32Array xs) = Inr (ints_number xs)"
| "element_number (JArray vs) =
     (case elements_numbers vs of Inl e \<Rightarrow> Inl e
      | Inr ns \<Rightarrow> Inr (case ns of [] \<Rightarrow> Fin 0 | [n] \<Rightarrow> n | _ \<Rightarrow> NaN))"
| "element_number (JObject kvs proto) =
     (if proto \<noteq> None then Inl OutsideModel
      else if lit ''toString'' \<in> set (map fst kvs) then Inl TypeError
      else Inr NaN)"
| "elements_numbers [] = Inr []"
| "elements_numbers (v # vs) =
     (case element_number v of Inl e \<Rightarrow> Inl e
      | Inr n \<Rightarrow> (case elements_numbers vs of Inl e \<Rightarrow> Inl e | Inr ns \<Rightarrow> Inr (n # ns)))"

text \<open>
  The body of the \<^verbatim>\<open>map\<close> callback of \<^verbatim>\<open>intArrayToUUID\<close>: a BigInt goes through
  \<^verbatim>\<open>Number\<close>, then \<^verbatim>\<open>value >>> 0\<close> converts its operand to a number.
\<close>

fun uuid_part :: "jsval \<Rightarrow> error + jstring" where
  "uuid_part (JBigInt i) = Inr (padStart8 (hex_digits (toUint32 (bigint_to_number i))))"
| "uuid_part (JNum n) = Inr (padStart8 (hex_digits (toUint32 n)))"
| "uuid_part JUndefined = Inr (padStart8 (hex_digits (toUint32 NaN)))"
| "uuid_part JNull = Inr (padStart8 (hex_digits (toUint32 (Fin 0))))"
| "uuid_part (JString s) = Inr (padStart8 (hex_digits (toUint32 (string_to_number s))))"
| "uuid_part v = map_sum id (\<lambda>n. padStart8 (hex_digits (toUint32 n))) (element_number v)"

fun map_result :: "('a \<Rightarrow> error + 'b) \<Rightarrow> 'a list \<Rightarrow> error + 'b list" where
  "map_result f [] = Inr []"
| "map_result f (x # xs) =
     (case f x of Inl e \<Rightarrow> Inl e
      | Inr y \<Rightarrow> (case map_result f xs of Inl e \<Rightarrow> Inl e | Inr ys \<Rightarrow> Inr (y # ys)))"

fun intArrayToUUID :: "jsval \<Rightarrow> error + jsval" where
  "intArrayToUUID (JArray intArray) =
     (if length intArray \<noteq> 4 then Inr JNull
      else (case map_result uuid_part intArray of Inl e \<Rightarrow> Inl e
            | Inr parts \<Rightarrow>
               let hex = concat parts
               in Inr (JString (slice hex 0 8 @ lit ''-'' @ slice hex 8 12 @ lit ''-'' @
                                slice hex 12 16 @ lit ''-'' @ slice hex 16 20 @ lit ''-'' @
                                slice hex 20 32))))"
| "intArrayToUUID _ = Inr JNull"

subsection \<open>Profiles\<close>

record skin =
  skin_name :: jsval
  skin_customName :: jsval
  skin_uuid :: jsval
  skin_textureValue :: jsval
  skin_textureSignature :: jsval

text \<open>\<^verbatim>\<open>properties.find(p => p.name === 'textures' || p.Name === 'textures')\<close>\<close>

fun find_textures :: "jsval list \<Rightarrow> error + jsval" where
  "find_textures [] = Inr JUndefined"
| "find_textures (p # ps) =
     (case get_prop p (lit ''name'') of Inl e \<Rightarrow> Inl e
      | Inr a \<Rightarrow>
         if a = JString (lit ''textures'') then Inr p
         else (case get_prop p (lit ''Name'') of Inl e \<Rightarrow> Inl e
               | Inr b \<Rightarrow> if b = JString (lit ''textures'') then Inr p else find_textures ps))"

text \<open>The \<^verbatim>\<open>if (id) { ... }\<close> block of \<^verbatim>\<open>parseProfile\<close>, giving the new value of \<^verbatim>\<open>uuid\<close>.\<close>

definition uuid_of_id :: "jsval \<Rightarrow> error + jsval" where
  "uuid_of_id id' =
     (if \<not> truthy id' then Inr JNull
      else if isArray id' then intArrayToUUID id'
      else if isObject id' then
        (case map_result (\<lambda>k. or_else (get_prop id' k) (get_prop id' k))
                [lit ''0'', lit ''1'', lit ''2'', lit ''3''] of
           Inl e \<Rightarrow> Inl e
         | Inr idArray \<Rightarrow>
            if list_all (\<lambda>v. v \<noteq> JUndefined) idArray then intArrayToUUID (JArray idArray)
            else Inr JNull)
      else (case id' of
              JString s \<Rightarrow> Inr id'
            | JBigInt i \<Rightarrow> Inr (JString (int_toString16 i))
            | JNum n \<Rightarrow> map_sum id JString (number_toString16 n)
            | _ \<Rightarrow> Inr JNull))"

text \<open>
  The \<^verbatim>\<open>if (properties) { ... }\<close> block, giving \<^verbatim>\<open>textureValue\<close> and \<^verbatim>\<open>textureSignature\<close>
  (both start as \<^verbatim>\<open>null\<close>).
\<close>

definition value_and_signature :: "jsval \<Rightarrow> error + (jsval \<times> jsval)" where
  "value_and_signature t =
     (case or_else (get_prop t (lit ''Value'')) (get_prop t (lit ''value'')) of Inl e \<Rightarrow> Inl e
      | Inr textureValue \<Rightarrow>
         (case or_else (get_prop t (lit ''Signature'')) (get_prop t (lit ''signature'')) of
            Inl e \<Rightarrow> Inl e
          | Inr textureSignature \<Rightarrow> Inr (textureValue, textureSignature)))"

definition textures_of :: "jsval \<Rightarrow> error + (jsval \<times> jsval)" where
  "textures_of properties =
     (if \<not> truthy properties then Inr (JNull, JNull)
      else (case properties of
              JArray ps \<Rightarrow>
                (case find_textures ps of Inl e \<Rightarrow> Inl e
                 | Inr textureProperty \<Rightarrow>
                    if truthy textureProperty then value_and_signature textureProperty
                    else Inr (JNull, JNull))
            | _ \<Rightarrow>
                (case or_else (get_prop properties (lit ''textures''))
                        (or_else (get_prop properties (lit ''Textures'')) (Inr (JArray []))) of
                   Inl e \<Rightarrow> Inl e
                 | Inr textures \<Rightarrow>
                    (case textures of
                       JArray (texture # ts) \<Rightarrow> value_and_signature texture
                     | _ \<Rightarrow> Inr (JNull, JNull)))))"

definition parseProfile :: "jsval \<Rightarrow> jsval \<Rightarrow> error + skin option" where
  "parseProfile profile customName =
     (if isString profile then
        Inr (Some \<lparr>skin_name = profile, skin_customName = customName, skin_uuid = JNull,
                   skin_textureValue = JNull, skin_textureSignature = JNull\<rparr>)
      else
        (case or_else (get_prop profile (lit ''Name''))
                (or_else (get_prop profile (lit ''name'')) (Inr JNull)) of
           Inl e \<Rightarrow> Inl e
         | Inr name \<Rightarrow>
        (case or_else (get_prop profile (lit ''Id''))
                (or_else (get_prop profile (lit ''id''))
                   (or_else (get_prop profile (lit ''UUID'')) (get_prop profile (lit ''uuid'')))) of
           Inl e \<Rightarrow> Inl e
         | Inr id' \<Rightarrow>
        (case uuid_of_id id' of Inl e \<Rightarrow> Inl e
         | Inr uuid \<Rightarrow>
        (case or_else (get_prop profile (lit ''Properties''))
                (get_prop profile (lit ''properties'')) of
           Inl e \<Rightarrow> Inl e
         | Inr properties \<Rightarrow>
        (case textures_of properties of Inl e \<Rightarrow> Inl e
         | Inr (textureValue, textureSignature) \<Rightarrow>
            if \<not> truthy name \<and> \<not> truthy uuid \<and> \<not> truthy textureValue then Inr None
            else Inr (Some \<lparr>skin_name = name, skin_customName = customName, skin_uuid = uuid,
                             skin_textureValue = textureValue,
                             skin_textureSignature = textureSignature\<rparr>)))))))"

definition extractSkinFromEntity :: "jsval \<Rightarrow> error + skin option" where
  "extractSkinFromEntity entity =
     (case or_else (get_prop entity (lit ''id''))
             (or_else (get_prop entity (lit ''Id'')) (Inr (JString []))) of
        Inl e \<Rightarrow> Inl e
      | Inr id' \<Rightarrow>
     (case or_else (get_prop entity (lit ''profile''))
             (or_else (get_prop entity (lit ''SkullOwner'')) (get_prop entity (lit ''Owner''))) of
        Inl e \<Rightarrow> Inl e
      | Inr profile \<Rightarrow>
         if \<not> truthy profile then Inr None
         else (case or_else (get_prop entity (lit ''custom_name''))
                      (or_else (get_prop entity (lit ''CustomName'')) (Inr JNull)) of
                 Inl e \<Rightarrow> Inl e
               | Inr customName \<Rightarrow> parseProfile profile customName)))"

subsection \<open>The walk over regions and block entities\<close>

text \<open>
  \<^verbatim>\<open>seenTextures\<close> is a \<^verbatim>\<open>Set\<close>: \<^verbatim>\<open>has\<close> compares primitives by value (SameValueZero)
  and objects by identity. Every value of the decoded tree is an object of its own and
  the walk visits each block entity once, so an object key is never found in the set.
\<close>

definition is_zero :: "jsval \<Rightarrow> bool" where
  "is_zero v = (v = JNum (Fin 0) \<or> v = JNum NegZero)"

definition same_value_zero :: "jsval \<Rightarrow> jsval \<Rightarrow> bool" where
  "same_value_zero a b = (\<not> isObject a \<and> (a = b \<or> (is_zero a \<and> is_zero b)))"

definition set_has :: "jsval list \<Rightarrow> jsval \<Rightarrow> bool" where
  "set_has seen key = list_ex (\<lambda>k. same_value_zero k key) seen"

definition js_or :: "jsval \<Rightarrow> jsval \<Rightarrow> jsval" where
  "js_or a b = (if truthy a then a else b)"

text \<open>\<^verbatim>\<open>skinData.textureValue || skinData.uuid || skinData.name\<close>\<close>

definition dedup_key :: "skin \<Rightarrow> jsval" where
  "dedup_key skinData = js_or (js_or (skin_textureValue skinData) (skin_uuid skinData)) (skin_name skinData)"

fun entities_loop :: "jsval list \<Rightarrow> skin list \<times> jsval list \<Rightarrow> error + (skin list \<times> jsval list)" where
  "entities_loop [] st = Inr st"
| "entities_loop (entity # rest) (skins, seenTextures) =
     (case extractSkinFromEntity entity of Inl e \<Rightarrow> Inl e
      | Inr None \<Rightarrow> entities_loop rest (skins, seenTextures)
      | Inr (Some skinData) \<Rightarrow>
         let key = dedup_key skinData
         in if truthy key \<and> \<not> set_has seenTextures key
            then entities_loop rest (skins @ [skinData], seenTextures @ [key])
            else entities_loop rest (skins, seenTextures))"

fun regions_loop :: "jsval \<Rightarrow> jstring list \<Rightarrow> skin list \<times> jsval list \<Rightarrow> error + (skin list \<times> jsval list)" where
  "regions_loop regions [] st = Inr st"
| "regions_loop regions (regionName # rest) st =
     (case get_prop regions regionName of Inl e \<Rightarrow> Inl e
      | Inr region \<Rightarrow>
     (case or_else (get_prop region (lit ''BlockEntities''))
             (or_else (get_prop region (lit ''TileEntities'')) (Inr (JArray []))) of
        Inl e \<Rightarrow> Inl e
      | Inr blockEntities \<Rightarrow>
     (case iterate blockEntities of Inl e \<Rightarrow> Inl e
      | Inr entities \<Rightarrow>
     (case entities_loop entities st of Inl e \<Rightarrow> Inl e
      | Inr st' \<Rightarrow> regions_loop regions rest st'))))"

definition extractSkinsFromNBT :: "document \<Rightarrow> error + skin list" where
  "extractSkinsFromNBT nbtData =
     (case or_else (get_prop (doc_value nbtData) (lit ''Regions''))
             (or_else (get_prop (doc_value nbtData) (lit ''regions'')) (Inr (JObject [] None))) of
        Inl e \<Rightarrow> Inl e
      | Inr regions \<Rightarrow>
         map_sum id fst (regions_loop regions (for_in_keys regions) ([], [])))"


declare intArrayToUUID.simps [simp del]

section \<open>Reference definitions\<close>

text \<open>
  What the specification says a result should be, written independently of the code:
  fixed-width lowercase hexadecimal and the canonical 8-4-4-4-12 grouping of four
  unsigned 32-bit values.
\<close>

fun hex_fixed :: "nat \<Rightarrow> nat \<Rightarrow> jstring" where
  "hex_fixed 0 n = []"
| "hex_fixed (Suc k) n = hex_fixed k (n div 16) @ [hex_digit (n mod 16)]"

definition canonical_uuid :: "nat \<Rightarrow> nat \<Rightarrow> nat \<Rightarrow> nat \<Rightarrow> jstring" where
  "canonical_uuid a b c d =
     (let h = hex_fixed 8 a @ hex_fixed 8 b @ hex_fixed 8 c @ hex_fixed 8 d
      in take 8 h @ lit ''-'' @ take 4 (drop 8 h) @ lit ''-'' @ take 4 (drop 12 h) @ lit ''-'' @
         take 4 (drop 16 h) @ lit ''-'' @ drop 20 h)"


text \<open>The signed value of an unsigned \<open>bits\<close>-bit pattern.\<close>

definition twos_complement :: "nat \<Rightarrow> nat \<Rightarrow> int" where
  "twos_complement bits u = (if u < 2 ^ (bits - 1) then int u else int u - 2 ^ bits)"

text \<open>
  The deduplication rule of the specification: a profile is kept unless an earlier kept
  profile has the same key; what is kept stays in its order.
\<close>

function first_wins :: "skin list \<Rightarrow> skin list" where
  "first_wins [] = []"
| "first_wins (c # cs) =
     c # first_wins (filter (\<lambda>d. \<not> same_value_zero (dedup_key c) (dedup_key d)) cs)"
  by pat_completeness auto
termination
  by (relation "measure length") (auto simp: less_Suc_eq_le)

text \<open>
  The traversal of the specification, without deduplication: the regions in the order
  \<^verbatim>\<open>for...in\<close> lists them, in each region the block entities in list order, and of
  each block entity its profile when it has one.
\<close>

definition somes :: "'a option list \<Rightarrow> 'a list" where
  "somes rs = concat (map (\<lambda>r. case r of None \<Rightarrow> [] | Some x \<Rightarrow> [x]) rs)"

definition region_entities :: "jsval \<Rightarrow> jstring \<Rightarrow> error + jsval list" where
  "region_entities regions regionName =
     (case get_prop regions regionName of Inl e \<Rightarrow> Inl e
      | Inr region \<Rightarrow>
         (case or_else (get_prop region (lit ''BlockEntities''))
                 (or_else (get_prop region (lit ''TileEntities'')) (Inr (JArray []))) of
            Inl e \<Rightarrow> Inl e
          | Inr blockEntities \<Rightarrow> iterate blockEntities))"

fun regions_profiles :: "jsval \<Rightarrow> jstring list \<Rightarrow> error + skin list" where
  "regions_profiles regions [] = Inr []"
| "regions_profiles regions (regionName # rest) =
     (case region_entities regions regionName of Inl e \<Rightarrow> Inl e
      | Inr entities \<Rightarrow>
         (case map_result extractSkinFromEntity entities of Inl e \<Rightarrow> Inl e
          | Inr rs \<Rightarrow>
             (case regions_profiles regions rest of Inl e \<Rightarrow> Inl e
              | Inr others \<Rightarrow> Inr (somes rs @ others))))"

definition all_profiles :: "document \<Rightarrow> error + skin list" where
  "all_profiles nbtData =
     (case or_else (get_prop (doc_value nbtData) (lit ''Regions''))
             (or_else (get_prop (doc_value nbtData) (lit ''regions'')) (Inr (JObject [] None))) of
        Inl e \<Rightarrow> Inl e
      | Inr regions \<Rightarrow> regions_profiles regions (for_in_keys regions))"

text \<open>
  The shapes on which the extractor cannot fail. Nothing here asks for a key to be
  present: every condition is on the value that an aliased read returns. A value
  converts to a number unless it is, or as an array holds, a compound with a member
  named \<^verbatim>\<open>toString\<close> or with a replaced prototype. Of a properties list only the entries
  up to the first one named \<^verbatim>\<open>textures\<close> are read.
\<close>

definition not_nullish :: "jsval \<Rightarrow> bool" where
  "not_nullish v = (v \<noteq> JNull \<and> v \<noteq> JUndefined)"

fun convertible :: "jsval \<Rightarrow> bool" where
  "convertible (JArray vs) = list_all convertible vs"
| "convertible (JObject kvs proto) = (proto = None \<and> lit ''toString'' \<notin> set (map fst kvs))"
| "convertible _ = True"

text \<open>
  The conversion of a list descends into the lists it holds, one call for every level,
  and an engine bounds the depth of calls: a part is taken to nest at most 512 deep.
\<close>

fun list_depth :: "jsval \<Rightarrow> nat" where
  "list_depth (JArray vs) = Suc (foldr max (map list_depth vs) 0)"
| "list_depth _ = 0"

definition part_ok :: "jsval \<Rightarrow> bool" where
  "part_ok v = (convertible v \<and> list_depth v \<le> 512)"

definition ok_id :: "jsval \<Rightarrow> bool" where
  "ok_id i =
     (case i of
        JArray vs \<Rightarrow> length vs = 4 \<longrightarrow> list_all part_ok vs
      | JObject kvs proto \<Rightarrow>
          list_all (\<lambda>v. v \<noteq> JUndefined) (map (lookup i) [lit ''0'', lit ''1'', lit ''2'', lit ''3''])
          \<longrightarrow> list_all part_ok (map (lookup i) [lit ''0'', lit ''1'', lit ''2'', lit ''3''])
      | _ \<Rightarrow> True)"

fun find_ok :: "jsval list \<Rightarrow> bool" where
  "find_ok [] = True"
| "find_ok (p # ps) =
     (not_nullish p \<and>
      (lookup p (lit ''name'') = JString (lit ''textures'') \<or>
       lookup p (lit ''Name'') = JString (lit ''textures'') \<or> find_ok ps))"

definition ok_properties :: "jsval \<Rightarrow> bool" where
  "ok_properties p =
     (case p of
        JArray ps \<Rightarrow> find_ok ps
      | _ \<Rightarrow>
         (case js_or (lookup p (lit ''textures'')) (js_or (lookup p (lit ''Textures'')) (JArray [])) of
            JArray (t # ts) \<Rightarrow> not_nullish t
          | _ \<Rightarrow> True))"

definition ok_profile :: "jsval \<Rightarrow> bool" where
  "ok_profile p =
     (isString p \<or>
      (ok_id (js_or (lookup p (lit ''Id'')) (js_or (lookup p (lit ''id''))
                (js_or (lookup p (lit ''UUID'')) (lookup p (lit ''uuid''))))) \<and>
       ok_properties (js_or (lookup p (lit ''Properties'')) (lookup p (lit ''properties'')))))"

definition ok_entity :: "jsval \<Rightarrow> bool" where
  "ok_entity e =
     (not_nullish e \<and>
      ok_profile (js_or (lookup e (lit ''profile''))
                    (js_or (lookup e (lit ''SkullOwner'')) (lookup e (lit ''Owner'')))))"

definition ok_region :: "jsval \<Rightarrow> bool" where
  "ok_region r =
     (not_nullish r \<and>
      (case iterate (js_or (lookup r (lit ''BlockEntities''))
                       (js_or (lookup r (lit ''TileEntities'')) (JArray []))) of
         Inl e \<Rightarrow> False
       | Inr entities \<Rightarrow> list_all ok_entity entities))"

definition ok_root :: "document \<Rightarrow> bool" where
  "ok_root nbtData =
     (not_nullish (doc_value nbtData) \<and>
      (let regions = js_or (lookup (doc_value nbtData) (lit ''Regions''))
                       (js_or (lookup (doc_value nbtData) (lit ''regions'')) (JObject [] None))
       in list_all (\<lambda>k. ok_region (lookup regions k)) (for_in_keys regions)))"

text \<open>A root that exercises the shapes.\<close>

definition shapes_sample :: document where
  "shapes_sample =
     \<lparr>doc_name = [], doc_value = JObject [(lit ''regions'', JObject
       [(lit ''r1'', JObject [] None),
        (lit ''r2'', JObject [(lit ''TileEntities'', JArray
           [JObject [] None, jsint 7,
            JObject [(lit ''profile'', JObject [(lit ''Id'', JString (lit ''x'')),
                                                (lit ''Properties'', jsint 3)] None)] None,
            JObject [(lit ''profile'', JObject [(lit ''id'', JNum (Fin (3 / 2)))] None)] None,
            JObject [(lit ''SkullOwner'', JObject
               [(lit ''Id'', JArray [JString (lit ''1''), JString (lit ''2''),
                                     JString (lit ''3''), JString (lit ''4'')]),
                (lit ''Properties'', JArray
                   [JObject [(lit ''name'', JString (lit ''textures'')),
                             (lit ''Value'', JString (lit ''dGV4''))] None,
                    JNull])] None)] None])] None)] None)] None\<rparr>"

subsection \<open>Tag trees and a reference encoder\<close>

text \<open>
  The tag tree of the data model and a reference encoder for it, following the byte
  layout of the specification: big-endian fixed-width numbers, a 16-bit length before
  the UTF-8 bytes of a string, a 32-bit count before array elements, a type byte and a
  32-bit count before list elements, and for a compound one entry per member (type
  byte, name, payload) closed by a zero byte. A string is a list of code points.
\<close>

datatype tag =
    TagEnd
  | TagByte "8 word"
  | TagShort "16 word"
  | TagInt "32 word"
  | TagLong "64 word"
  | TagFloat "32 word"
  | TagDouble "64 word"
  | TagByteArray "8 word list"
  | TagString "nat list"
  | TagList nat "tag list"
  | TagCompound "(nat list \<times> tag) list"
  | TagIntArray "32 word list"
  | TagLongArray "64 word list"

fun tag_type :: "tag \<Rightarrow> nat" where
  "tag_type TagEnd = 0"
| "tag_type (TagByte b) = 1"
| "tag_type (TagShort w) = 2"
| "tag_type (TagInt w) = 3"
| "tag_type (TagLong w) = 4"
| "tag_type (TagFloat w) = 5"
| "tag_type (TagDouble w) = 6"
| "tag_type (TagByteArray bs) = 7"
| "tag_type (TagString s) = 8"
| "tag_type (TagList ty ts) = 9"
| "tag_type (TagCompound kvs) = 10"
| "tag_type (TagIntArray ws) = 11"
| "tag_type (TagLongArray ws) = 12"

definition be_bytes :: "nat \<Rightarrow> nat \<Rightarrow> byte list" where
  "be_bytes k v = map (\<lambda>j. of_nat (v div 256 ^ j)) (rev [0..<k])"

definition utf8_encode_cp :: "nat \<Rightarrow> nat list" where
  "utf8_encode_cp c =
     (if c < 128 then [c]
      else if c < 2048 then [192 + c div 64, 128 + c mod 64]
      else if c < 65536 then [224 + c div 4096, 128 + (c div 64) mod 64, 128 + c mod 64]
      else [240 + c div 262144, 128 + (c div 4096) mod 64, 128 + (c div 64) mod 64,
            128 + c mod 64])"

definition utf8_encode :: "nat list \<Rightarrow> byte list" where
  "utf8_encode s = map of_nat (concat (map utf8_encode_cp s))"

definition enc_string :: "nat list \<Rightarrow> byte list" where
  "enc_string s = be_bytes 2 (length (utf8_encode s)) @ utf8_encode s"

fun enc_payload :: "tag \<Rightarrow> byte list" where
  "enc_payload TagEnd = []"
| "enc_payload (TagByte b) = [b]"
| "enc_payload (TagShort w) = be_bytes 2 (unat w)"
| "enc_payload (TagInt w) = be_bytes 4 (unat w)"
| "enc_payload (TagLong w) = be_bytes 8 (unat w)"
| "enc_payload (TagFloat w) = be_bytes 4 (unat w)"
| "enc_payload (TagDouble w) = be_bytes 8 (unat w)"
| "enc_payload (TagByteArray bs) = be_bytes 4 (length bs) @ bs"
| "enc_payload (TagString s) = enc_string s"
| "enc_payload (TagList ty ts) =
     of_nat ty # be_bytes 4 (length ts) @ concat (map enc_payload ts)"
| "enc_payload (TagCompound kvs) =
     concat (map (\<lambda>(k, t). of_nat (tag_type t) # enc_string k @ enc_payload t) kvs) @ [0]"
| "enc_payload (TagIntArray ws) =
     be_bytes 4 (length ws) @ concat (map (\<lambda>w. be_bytes 4 (unat w)) ws)"
| "enc_payload (TagLongArray ws) =
     be_bytes 4 (length ws) @ concat (map (\<lambda>w. be_bytes 8 (unat w)) ws)"

definition enc_document :: "nat list \<Rightarrow> tag \<Rightarrow> byte list" where
  "enc_document name t = 10 # enc_string name @ enc_payload t"

text \<open>The JavaScript value that stands for a tag tree: what an exact decoder returns.\<close>

definition js_string :: "nat list \<Rightarrow> jstring" where
  "js_string s = concat (map utf16_units s)"

fun js_of :: "tag \<Rightarrow> jsval" where
  "js_of TagEnd = JNull"
| "js_of (TagByte b) = jsint (sint b)"
| "js_of (TagShort w) = jsint (sint w)"
| "js_of (TagInt w) = jsint (sint w)"
| "js_of (TagLong w) = JBigInt (sint w)"
| "js_of (TagFloat w) = JNum (ieee_value 8 23 (unat w))"
| "js_of (TagDouble w) = JNum (ieee_value 11 52 (unat w))"
| "js_of (TagByteArray bs) = JInt8Array (map sint bs)"
| "js_of (TagString s) = JString (js_string s)"
| "js_of (TagList ty ts) = JArray (map js_of ts)"
| "js_of (TagCompound kvs) = JObject (map (\<lambda>(k, t). (js_string k, js_of t)) kvs) None"
| "js_of (TagIntArray ws) = JInt32Array (map sint ws)"
| "js_of (TagLongArray ws) = JArray (map (\<lambda>w. JBigInt (sint w)) ws)"

text \<open>
  The trees the decoder reproduces. A string is made of Unicode scalar values, does not
  start with a byte order mark and has at most 32767 UTF-8 bytes. Arrays and lists have
  fewer than \<open>2^31\<close> elements and a list holds elements of its declared type. The keys of
  a compound are distinct, none is \<^verbatim>\<open>__proto__\<close>, and they stand in the order in which
  JavaScript enumerates them: array-index keys first, ascending.
\<close>

definition scalar_value :: "nat \<Rightarrow> bool" where
  "scalar_value c = (c < 55296 \<or> (57344 \<le> c \<and> c < 1114112))"

definition wf_string :: "nat list \<Rightarrow> bool" where
  "wf_string s = (list_all scalar_value s \<and> (s = [] \<or> hd s \<noteq> 65279) \<and>
                   length (utf8_encode s) < 32768)"

definition key_before :: "jstring \<Rightarrow> jstring \<Rightarrow> bool" where
  "key_before a b =
     (case (array_index a, array_index b) of
        (Some i, Some j) \<Rightarrow> i < j
      | (None, Some j) \<Rightarrow> False
      | _ \<Rightarrow> True)"

definition wf_keys :: "jstring list \<Rightarrow> bool" where
  "wf_keys ks = (distinct ks \<and> lit ''__proto__'' \<notin> set ks \<and> sorted_wrt key_before ks)"

fun wf_tag :: "tag \<Rightarrow> bool" where
  "wf_tag (TagByteArray bs) = (length bs < 2 ^ 31)"
| "wf_tag (TagString s) = wf_string s"
| "wf_tag (TagList ty ts) =
     (ty < 256 \<and> length ts < 2 ^ 31 \<and> list_all (\<lambda>t. tag_type t = ty \<and> wf_tag t) ts)"
| "wf_tag (TagCompound kvs) =
     (list_all (\<lambda>(k, t). wf_string k \<and> t \<noteq> TagEnd \<and> wf_tag t) kvs \<and>
      wf_keys (map (\<lambda>(k, t). js_string k) kvs))"
| "wf_tag (TagIntArray ws) = (length ws < 2 ^ 31)"
| "wf_tag (TagLongArray ws) = (length ws < 2 ^ 31)"
| "wf_tag _ = True"

text \<open>
  The size and the nesting depth of a tree. The reader calls itself once for every level
  of nesting and builds one array element or object for every value, and an engine
  bounds the depth of calls and the length of an array; the model has no such bound. A
  tree is within the bounds when it nests at most 512 deep, holds at most \<open>2^20\<close> values
  and has an encoding of at most \<open>2^24\<close> bytes.
\<close>

fun tag_size :: "tag \<Rightarrow> nat" where
  "tag_size (TagByteArray bs) = Suc (length bs)"
| "tag_size (TagIntArray ws) = Suc (length ws)"
| "tag_size (TagLongArray ws) = Suc (length ws)"
| "tag_size (TagList ty ts) = Suc (sum_list (map tag_size ts))"
| "tag_size (TagCompound kvs) = Suc (sum_list (map (\<lambda>(k, t). tag_size t) kvs))"
| "tag_size _ = 1"

fun tag_depth :: "tag \<Rightarrow> nat" where
  "tag_depth (TagList ty ts) = Suc (foldr max (map tag_depth ts) 0)"
| "tag_depth (TagCompound kvs) = Suc (foldr max (map (\<lambda>(k, t). tag_depth t) kvs) 0)"
| "tag_depth _ = 0"

definition within_bounds :: "tag \<Rightarrow> bool" where
  "within_bounds t =
     (tag_depth t \<le> 512 \<and> tag_size t \<le> 2 ^ 20 \<and> length (enc_payload t) \<le> 2 ^ 24)"

text \<open>The bytes \<open>bs\<close> stand in the buffer from offset \<open>off\<close> on.\<close>

definition at_off :: "byte list \<Rightarrow> nat \<Rightarrow> byte list \<Rightarrow> bool" where
  "at_off buf off bs = (off + length bs \<le> length buf \<and> take (length bs) (drop off buf) = bs)"


text \<open>A tree with a list of compounds inside a compound, arrays and an array-index key.\<close>

definition sample_tree :: tag where
  "sample_tree =
     TagCompound
       [(lit ''0'', TagInt 7),
        (lit ''items'',
         TagList 10
           [TagCompound [(lit ''id'', TagString (lit ''skull'')), (lit ''n'', TagByte 255)],
            TagCompound []]),
        (lit ''longs'', TagLongArray [1, 2]),
        (lit ''ints'', TagIntArray [5]),
        (lit ''bytes'', TagByteArray [3, 4])]"



section \<open>String literals and aliased reads\<close>

text \<open>The equations that evaluate the reader on a concrete buffer.\<close>

lemmas reader_eval = parse_def readUByte_def readByte_def readShort_def readInt_def readLong_def
  readFloat_def readDouble_def readString_def readByteArray_def readIntArray_def readLongArray_def
  getBytes_def getInt8_def getUint8_def getInt16_def getInt32_def getUint32_def getFloat32_def
  getFloat64_def be_nat_def textDecode_def utf16_units_def
  readTag.simps readList.simps readList_loop.simps readCompound.simps readCompound_loop.simps
  readByteArray_loop.simps readIntArray_loop.simps readLongArray_loop.simps
  define_prop_def array_index_def is_digit_def dec_value_def lit_def



lemma get_prop_simps [simp]:
  "get_prop JUndefined k = Inl TypeError"
  "get_prop JNull k = Inl TypeError"
  "get_prop (JNum n) k = Inr JUndefined"
  "get_prop (JBigInt i) k = Inr JUndefined"
  "get_prop (JString s) k = Inr (lookup (JString s) k)"
  "get_prop (JInt8Array xs) k = Inr (lookup (JInt8Array xs) k)"
  "get_prop (JInt32Array xs) k = Inr (lookup (JInt32Array xs) k)"
  "get_prop (JArray vs) k = Inr (lookup (JArray vs) k)"
  "get_prop (JObject kvs proto) k = Inr (lookup (JObject kvs proto) k)"
  by (simp_all add: get_prop_def)

lemma get_prop_Inr: "v \<noteq> JUndefined \<Longrightarrow> v \<noteq> JNull \<Longrightarrow> get_prop v k = Inr (lookup v k)"
  by (simp add: get_prop_def)

lemma get_prop_truthy: "truthy v \<Longrightarrow> get_prop v k = Inr (lookup v k)"
  by (cases v) (simp_all add: get_prop_def)

lemma or_else_same: "or_else x x = x"
  by (cases x) (auto simp: or_else_def)

lemma or_else_Inr: "or_else (Inr v) b = (if truthy v then Inr v else b)"
  by (simp add: or_else_def)

lemma lit_simps:
  "lit [] = []" "lit (c # cs) = of_char c # lit cs"
  by (simp_all add: lit_def)

lemma lit_eq_iff [simp]: "lit a = lit b \<longleftrightarrow> a = b"
proof -
  have "inj (of_char :: char \<Rightarrow> nat)" by (rule injI) simp
  then show ?thesis by (simp add: lit_def inj_map_eq_map)
qed

lemma lit_eq_Nil [simp]: "lit a = [] \<longleftrightarrow> a = []" "[] = lit a \<longleftrightarrow> a = []"
  by (auto simp: lit_def)


section \<open>UUID normalization\<close>

lemma hex_digits_small: "n < 16 \<Longrightarrow> hex_digits n = [hex_digit n]"
  by (simp add: hex_digits.simps)

lemma hex_digits_step: "16 \<le> n \<Longrightarrow> hex_digits n = hex_digits (n div 16) @ [hex_digit (n mod 16)]"
  by (subst hex_digits.simps) simp

lemma hex_fixed_zero: "hex_fixed k 0 = replicate k 48"
  by (induction k) (simp_all add: hex_digit_def replicate_append_same)

lemma length_hex_fixed [simp]: "length (hex_fixed k n) = k"
  by (induction k arbitrary: n) simp_all

lemma pad_hex_digits:
  "n < 16 ^ k \<Longrightarrow> 0 < k \<Longrightarrow>
   replicate (k - length (hex_digits n)) 48 @ hex_digits n = hex_fixed k n"
proof (induction k arbitrary: n)
  case 0
  then show ?case by simp
next
  case (Suc k)
  show ?case
  proof (cases "n < 16")
    case True
    then show ?thesis by (simp add: hex_digits_small hex_fixed_zero)
  next
    case False
    then have k: "0 < k" using Suc.prems by (cases k) auto
    from Suc.prems have q: "n div 16 < 16 ^ k" by (simp add: less_mult_imp_div_less mult.commute)
    from Suc.IH [OF q k] have "replicate (k - length (hex_digits (n div 16))) 48 @ hex_digits (n div 16) = hex_fixed k (n div 16)" .
    with False show ?thesis by (simp add: hex_digits_step)
  qed
qed

lemma padStart8_hex_digits: "n < 2 ^ 32 \<Longrightarrow> padStart8 (hex_digits n) = hex_fixed 8 n"
  using pad_hex_digits [of n 8] by (simp add: padStart8_def)

lemma toUint32_of_int: "toUint32 (Fin (of_int i)) = nat (i mod 2 ^ 32)"
  by (simp add: toUint32_def)

lemma sint_mod_32: "nat (sint (w :: 32 word) mod 2 ^ 32) = unat w"
proof -
  have "uint w = sint w mod 2 ^ 32" by (simp add: uint_sint take_bit_eq_mod)
  then have "nat (sint w mod 2 ^ 32) = nat (uint w)" by simp
  then show ?thesis by simp
qed

lemma toUint32_signed: "toUint32 (Fin (signed (w :: 32 word))) = unat w"
proof -
  have "toUint32 (Fin (of_int (sint w))) = nat (sint w mod 2 ^ 32)" by (rule toUint32_of_int)
  with sint_mod_32 [of w] show ?thesis by simp
qed

lemma uuid_part_int32: "uuid_part (jsint (sint (w :: 32 word))) = Inr (hex_fixed 8 (unat w))"
proof -
  have "unat w < 2 ^ 32" using unsigned_less [of w, where ?'a = nat] by simp
  then show ?thesis
    by (simp add: jsint_def toUint32_signed padStart8_hex_digits)
qed

lemma intArrayToUUID_int32:
  "intArrayToUUID (JArray [jsint (sint (a :: 32 word)), jsint (sint (b :: 32 word)),
                           jsint (sint (c :: 32 word)), jsint (sint (d :: 32 word))]) =
   Inr (JString (canonical_uuid (unat a) (unat b) (unat c) (unat d)))"
  by (simp add: intArrayToUUID.simps uuid_part_int32 canonical_uuid_def slice_def Let_def)


lemma uuid_of_id_array:
  "uuid_of_id (JArray [jsint (sint (a :: 32 word)), jsint (sint (b :: 32 word)),
                       jsint (sint (c :: 32 word)), jsint (sint (d :: 32 word))]) =
   Inr (JString (canonical_uuid (unat a) (unat b) (unat c) (unat d)))"
  unfolding uuid_of_id_def by (simp add: intArrayToUUID_int32)

lemma uuid_of_id_compound:
  "uuid_of_id (JObject [(lit ''0'', jsint (sint (a :: 32 word))), (lit ''1'', jsint (sint (b :: 32 word))),
                        (lit ''2'', jsint (sint (c :: 32 word))), (lit ''3'', jsint (sint (d :: 32 word)))] None) =
   Inr (JString (canonical_uuid (unat a) (unat b) (unat c) (unat d)))"
proof -
  have u: "\<And>x. jsint x \<noteq> JUndefined" by (simp add: jsint_def)
  show ?thesis
    unfolding uuid_of_id_def
    by (simp add: or_else_same u intArrayToUUID_int32)
qed

lemma canonical_uuid_nonempty: "canonical_uuid a b c d \<noteq> []"
  by (simp add: canonical_uuid_def Let_def)

lemma hex_fixed_numeral:
  "hex_fixed (numeral k) n = hex_fixed (pred_numeral k) (n div 16) @ [hex_digit (n mod 16)]"
  unfolding numeral_eq_Suc [of k] by (rule hex_fixed.simps)

text \<open>
  Claim C1. For every four signed 32-bit integers, \<^verbatim>\<open>intArrayToUUID\<close> renders each as the
  8 lowercase hex digits of its unsigned 32-bit representation, concatenates them in
  order and groups the 32 digits 8-4-4-4-12. \<^verbatim>\<open>parseProfile\<close> gives that same string
  whether the identifier is a plain array or a compound keyed \<^verbatim>\<open>"0"\<close> to \<^verbatim>\<open>"3"\<close>. For
  the values -737154161, 1675314149, -1429125736, -1059509461 the string is
  \<^verbatim>\<open>d40feb8f-63db-43e5-aad1-4598c0d92b2b\<close>.
\<close>

theorem uuid_normalization:
  "intArrayToUUID (JArray [jsint (sint (a :: 32 word)), jsint (sint (b :: 32 word)),
                           jsint (sint (c :: 32 word)), jsint (sint (d :: 32 word))]) =
     Inr (JString (canonical_uuid (unat a) (unat b) (unat c) (unat d)))
   \<and> parseProfile (JObject [(lit ''Id'',
         JArray [jsint (sint a), jsint (sint b), jsint (sint c), jsint (sint d)])] None) cn =
     Inr (Some \<lparr>skin_name = JNull, skin_customName = cn,
                skin_uuid = JString (canonical_uuid (unat a) (unat b) (unat c) (unat d)),
                skin_textureValue = JNull, skin_textureSignature = JNull\<rparr>)
   \<and> parseProfile (JObject [(lit ''Id'',
         JObject [(lit ''0'', jsint (sint a)), (lit ''1'', jsint (sint b)),
                  (lit ''2'', jsint (sint c)), (lit ''3'', jsint (sint d))] None)] None) cn =
     Inr (Some \<lparr>skin_name = JNull, skin_customName = cn,
                skin_uuid = JString (canonical_uuid (unat a) (unat b) (unat c) (unat d)),
                skin_textureValue = JNull, skin_textureSignature = JNull\<rparr>)
   \<and> canonical_uuid (unat (- 737154161 :: 32 word)) (unat (1675314149 :: 32 word))
         (unat (- 1429125736 :: 32 word)) (unat (- 1059509461 :: 32 word)) =
       lit ''d40feb8f-63db-43e5-aad1-4598c0d92b2b''
   \<and> sint (- 737154161 :: 32 word) = - 737154161 \<and> sint (1675314149 :: 32 word) = 1675314149
   \<and> sint (- 1429125736 :: 32 word) = - 1429125736 \<and> sint (- 1059509461 :: 32 word) = - 1059509461"
proof (intro conjI)
  show "intArrayToUUID (JArray [jsint (sint a), jsint (sint b), jsint (sint c), jsint (sint d)]) =
     Inr (JString (canonical_uuid (unat a) (unat b) (unat c) (unat d)))"
    by (rule intArrayToUUID_int32)
  show "parseProfile (JObject [(lit ''Id'',
         JArray [jsint (sint a), jsint (sint b), jsint (sint c), jsint (sint d)])] None) cn =
     Inr (Some \<lparr>skin_name = JNull, skin_customName = cn,
                skin_uuid = JString (canonical_uuid (unat a) (unat b) (unat c) (unat d)),
                skin_textureValue = JNull, skin_textureSignature = JNull\<rparr>)"
    by (simp add: parseProfile_def or_else_Inr textures_of_def uuid_of_id_array
        canonical_uuid_nonempty)
  show "parseProfile (JObject [(lit ''Id'',
         JObject [(lit ''0'', jsint (sint a)), (lit ''1'', jsint (sint b)),
                  (lit ''2'', jsint (sint c)), (lit ''3'', jsint (sint d))] None)] None) cn =
     Inr (Some \<lparr>skin_name = JNull, skin_customName = cn,
                skin_uuid = JString (canonical_uuid (unat a) (unat b) (unat c) (unat d)),
                skin_textureValue = JNull, skin_textureSignature = JNull\<rparr>)"
    by (simp add: parseProfile_def or_else_Inr textures_of_def uuid_of_id_compound
        canonical_uuid_nonempty)
  show "canonical_uuid (unat (- 737154161 :: 32 word)) (unat (1675314149 :: 32 word))
         (unat (- 1429125736 :: 32 word)) (unat (- 1059509461 :: 32 word)) =
       lit ''d40feb8f-63db-43e5-aad1-4598c0d92b2b''"
    by (simp add: canonical_uuid_def Let_def lit_simps hex_digit_def hex_fixed_numeral)
qed simp_all



section \<open>64-bit integers\<close>

lemma mod_shift_low: "0 \<le> k \<Longrightarrow> k < 2 ^ 31 \<Longrightarrow> (k + 2 ^ 31) mod 2 ^ 32 = k + (2 ^ 31 :: int)"
  by (simp add: mod_pos_pos_trivial)

lemma mod_shift_high:
  assumes "2 ^ 31 \<le> k" "k < 2 ^ 32"
  shows "(k + 2 ^ 31) mod 2 ^ 32 = k - (2 ^ 31 :: int)"
proof -
  have "k + 2 ^ 31 = k - 2 ^ 31 + (2 ^ 32 :: int)" by simp
  then have "(k + 2 ^ 31) mod 2 ^ 32 = (k - 2 ^ 31 + 2 ^ 32) mod (2 ^ 32 :: int)" by (rule arg_cong)
  also have "\<dots> = (k - 2 ^ 31) mod 2 ^ 32" by (simp only: mod_add_self2)
  also have "\<dots> = k - 2 ^ 31" using assms by (simp add: mod_pos_pos_trivial)
  finally show ?thesis .
qed

lemma sint_of_nat_32:
  assumes "n < 2 ^ 32"
  shows "sint (word_of_nat n :: 32 word) = twos_complement 32 n"
proof -
  have u: "uint (word_of_nat n :: 32 word) = int n"
    using assms by (simp add: uint_word_of_int take_bit_eq_mod unsigned_of_nat)
  have "sint (word_of_nat n :: 32 word) = (int n + 2 ^ 31) mod 2 ^ 32 - 2 ^ 31"
    by (simp add: sint_uint u signed_take_bit_eq_take_bit_shift take_bit_eq_mod)
  also have "\<dots> = twos_complement 32 n"
  proof (cases "n < 2 ^ 31")
    case True
    then show ?thesis using mod_shift_low [of "int n"] by (simp add: twos_complement_def)
  next
    case False
    then show ?thesis using assms mod_shift_high [of "int n"] by (simp add: twos_complement_def)
  qed
  finally show ?thesis .
qed

lemma uint_of_nat_32:
  assumes "n < 2 ^ 32"
  shows "uint (word_of_nat n :: 32 word) = int n"
  using assms by (simp add: uint_word_of_int take_bit_eq_mod unsigned_of_nat)

lemma push_bit_or_add:
  assumes "0 \<le> l" "l < 2 ^ n"
  shows "push_bit n (h :: int) OR l = h * 2 ^ n + l"
proof -
  have l: "take_bit n l = l" using assms by (simp add: take_bit_int_eq_self)
  have "push_bit n h AND take_bit n l = 0"
    by (rule bit_eqI) (auto simp: bit_simps)
  with l have "push_bit n h AND l = 0" by simp
  then have "push_bit n h + l = push_bit n h OR l" by (rule disjunctive_add_eq_or)
  then show ?thesis by (simp add: push_bit_eq_mult)
qed

lemma be_nat_4:
  "be_nat [a, b, c, d] = unat a * 2 ^ 24 + unat b * 2 ^ 16 + unat c * 2 ^ 8 + unat d"
  by (simp add: be_nat_def)

lemma unat_byte_less: "unat (b :: byte) < 256"
  using unsigned_less [of b, where ?'a = nat] by simp

lemma be_nat_4_less: "be_nat [a, b, c, d] < 2 ^ 32"
  using unat_byte_less [of a] unat_byte_less [of b] unat_byte_less [of c] unat_byte_less [of d]
  by (simp add: be_nat_4)

text \<open>
  Claim C8. For every sequence of 8 bytes, \<^verbatim>\<open>readLong\<close> (and so a tag of type 4) returns
  the signed two's complement value of the 64-bit big-endian pattern of those bytes,
  exactly: the result is an unbounded integer, nothing is rounded.
\<close>

theorem readLong_exact:
  "readLong [b0, b1, b2, b3, b4, b5, b6, b7] 0 =
     Inr (twos_complement 64
            (unat b0 * 2 ^ 56 + unat b1 * 2 ^ 48 + unat b2 * 2 ^ 40 + unat b3 * 2 ^ 32 +
             unat b4 * 2 ^ 24 + unat b5 * 2 ^ 16 + unat b6 * 2 ^ 8 + unat b7), 8)
   \<and> readTag 4 [b0, b1, b2, b3, b4, b5, b6, b7] 0 =
     Inr (JBigInt (twos_complement 64
            (unat b0 * 2 ^ 56 + unat b1 * 2 ^ 48 + unat b2 * 2 ^ 40 + unat b3 * 2 ^ 32 +
             unat b4 * 2 ^ 24 + unat b5 * 2 ^ 16 + unat b6 * 2 ^ 8 + unat b7)), 8)"
proof -
  define H where "H = be_nat [b0, b1, b2, b3]"
  define L where "L = be_nat [b4, b5, b6, b7]"
  have H: "H < 2 ^ 32" and L: "L < 2 ^ 32" unfolding H_def L_def by (rule be_nat_4_less)+
  have r: "readLong [b0, b1, b2, b3, b4, b5, b6, b7] 0 =
      Inr (push_bit 32 (sint (word_of_nat H :: 32 word)) OR uint (word_of_nat L :: 32 word), 8)"
    by (simp add: readLong_def getInt32_def getUint32_def getBytes_def H_def L_def)
  have v: "push_bit 32 (sint (word_of_nat H :: 32 word)) OR uint (word_of_nat L :: 32 word) =
      twos_complement 32 H * 2 ^ 32 + int L"
    using L by (simp add: sint_of_nat_32 [OF H] uint_of_nat_32 [OF L] push_bit_or_add)
  have e: "unat b0 * 2 ^ 56 + unat b1 * 2 ^ 48 + unat b2 * 2 ^ 40 + unat b3 * 2 ^ 32 +
             unat b4 * 2 ^ 24 + unat b5 * 2 ^ 16 + unat b6 * 2 ^ 8 + unat b7 = H * 2 ^ 32 + L"
    by (simp add: H_def L_def be_nat_4)
  have t: "twos_complement 32 H * 2 ^ 32 + int L = twos_complement 64 (H * 2 ^ 32 + L)"
    using H L by (auto simp: twos_complement_def)
  have 1: "readLong [b0, b1, b2, b3, b4, b5, b6, b7] 0 =
     Inr (twos_complement 64
            (unat b0 * 2 ^ 56 + unat b1 * 2 ^ 48 + unat b2 * 2 ^ 40 + unat b3 * 2 ^ 32 +
             unat b4 * 2 ^ 24 + unat b5 * 2 ^ 16 + unat b6 * 2 ^ 8 + unat b7), 8)"
    unfolding e using r v t by simp
  then show ?thesis by (simp add: readTag.simps)
qed



section \<open>Strings\<close>

lemma be_nat_2: "be_nat [a, b] = unat a * 256 + unat b"
  by (simp add: be_nat_def)

lemma sint_of_nat_16:
  assumes "n < 2 ^ 16"
  shows "sint (word_of_nat n :: 16 word) = twos_complement 16 n"
proof -
  have u: "uint (word_of_nat n :: 16 word) = int n"
    using assms by (simp add: uint_word_of_int take_bit_eq_mod unsigned_of_nat)
  have "sint (word_of_nat n :: 16 word) = (int n + 2 ^ 15) mod 2 ^ 16 - 2 ^ 15"
    by (simp add: sint_uint u signed_take_bit_eq_take_bit_shift take_bit_eq_mod)
  also have "\<dots> = twos_complement 16 n"
  proof (cases "n < 2 ^ 15")
    case True
    then show ?thesis by (simp add: twos_complement_def mod_pos_pos_trivial)
  next
    case False
    have "int n + 2 ^ 15 = int n - 2 ^ 15 + (2 ^ 16 :: int)" by simp
    then have "(int n + 2 ^ 15) mod 2 ^ 16 = (int n - 2 ^ 15 + 2 ^ 16) mod (2 ^ 16 :: int)"
      by (rule arg_cong)
    also have "\<dots> = (int n - 2 ^ 15) mod 2 ^ 16" by (simp only: mod_add_self2)
    also have "\<dots> = int n - 2 ^ 15" using assms False by (simp add: mod_pos_pos_trivial)
    finally show ?thesis using False by (simp add: twos_complement_def)
  qed
  finally show ?thesis .
qed

lemma take_2_drop:
  "off + 2 \<le> length buf \<Longrightarrow> take 2 (drop off buf) = [buf ! off, buf ! (off + 1)]"
  by (simp add: numeral_2_eq_2 take_Suc_conv_app_nth add.commute)

lemma readShort_value:
  assumes "off + 2 \<le> length buf"
  shows "readShort buf off =
     Inr (twos_complement 16 (unat (buf ! off) * 256 + unat (buf ! (off + 1))), off + 2)"
proof -
  have "unat (buf ! off) * 256 + unat (buf ! (off + 1)) < 2 ^ 16"
    using unat_byte_less [of "buf ! off"] unat_byte_less [of "buf ! (off + 1)"] by simp
  from sint_of_nat_16 [OF this] assms show ?thesis
    by (simp add: readShort_def getInt16_def getBytes_def take_2_drop be_nat_2)
qed

text \<open>
  Claim C4, as the code has it. \<^verbatim>\<open>readString\<close> reads the two prefix bytes as a signed
  16-bit integer. With \<open>u\<close> the unsigned value of the prefix: for \<open>u\<close> from 1 to 32767 it
  consumes exactly \<open>u\<close> payload bytes and decodes them as UTF-8 (a \<^verbatim>\<open>RangeError\<close> when
  the buffer is shorter); for \<open>u = 0\<close> and for \<open>u\<close> from 32768 to 65535, which read as
  negative lengths, it returns the empty string and consumes no payload byte.
\<close>

theorem readString_length_prefix:
  "off + 2 \<le> length buf \<Longrightarrow>
   (let u = unat (buf ! off) * 256 + unat (buf ! (off + 1)) in
      (u = 0 \<or> 32768 \<le> u \<longrightarrow> readString buf off = Inr ([], off + 2)) \<and>
      (0 < u \<and> u < 32768 \<and> off + 2 + u \<le> length buf \<longrightarrow>
         readString buf off = Inr (textDecode (take u (drop (off + 2) buf)), off + 2 + u)) \<and>
      (0 < u \<and> u < 32768 \<and> length buf < off + 2 + u \<longrightarrow>
         readString buf off = Inl RangeError))"
proof -
  assume a: "off + 2 \<le> length buf"
  define u where "u = unat (buf ! off) * 256 + unat (buf ! (off + 1))"
  have b: "u < 65536"
    using unat_byte_less [of "buf ! off"] unat_byte_less [of "buf ! (off + 1)"]
    by (simp add: u_def)
  have rs: "readShort buf off = Inr (twos_complement 16 u, off + 2)"
    using readShort_value [OF a] by (simp add: u_def)
  have 1: "readString buf off = Inr ([], off + 2)" if "u = 0 \<or> 32768 \<le> u"
    unfolding readString_def rs using b that by (auto simp: twos_complement_def)
  have 2: "readString buf off =
      (case getBytes buf (off + 2) u of Inl e \<Rightarrow> Inl e
       | Inr bytes \<Rightarrow> Inr (textDecode bytes, off + 2 + u))" if "0 < u" "u < 32768"
    unfolding readString_def rs using that
    by (simp add: twos_complement_def split: sum.splits)
  have 3: "readString buf off = Inr (textDecode (take u (drop (off + 2) buf)), off + 2 + u)"
    if "0 < u" "u < 32768" "off + 2 + u \<le> length buf"
    using 2 that by (simp add: getBytes_def)
  have 4: "readString buf off = Inl RangeError"
    if "0 < u" "u < 32768" "length buf < off + 2 + u"
    using 2 that by (simp add: getBytes_def)
  show ?thesis
    unfolding Let_def u_def [symmetric] using 1 3 4 by blast
qed

text \<open>The three cases of the theorem on concrete buffers.\<close>

theorem readString_length_prefix_witness:
  "readString [0, 3, 65, 195, 169, 7] 0 = Inr ([65, 233], 5)
   \<and> readString [255, 255, 65] 0 = Inr ([], 2)
   \<and> readString [0, 3, 65] 0 = Inl RangeError"
  using readString_length_prefix [of 0 "[0, 3, 65, 195, 169, 7]"]
    readString_length_prefix [of 0 "[255, 255, 65]"]
    readString_length_prefix [of 0 "[0, 3, 65]"]
  by (simp add: textDecode_def utf16_units_def)

text \<open>
  Claim C4 as stated fails: a prefix of unsigned value 32768 followed by 32768 payload
  bytes is read as the empty string, and no payload byte is consumed.
\<close>

theorem readString_unsigned_counterexample:
  "readString ([128, 0] @ replicate 32768 65) 0 = Inr ([], 2)
   \<and> readString ([128, 0] @ replicate 32768 65) 0 \<noteq>
       Inr (textDecode (replicate 32768 65), 2 + 32768)"
  by (simp add: readString_def readShort_def getInt16_def getBytes_def be_nat_def)



section \<open>Block entities\<close>

lemma extractSkinFromEntity_object:
  "extractSkinFromEntity (JObject kvs proto) =
     (let e = JObject kvs proto;
          profile = js_or (lookup e (lit ''profile''))
                      (js_or (lookup e (lit ''SkullOwner'')) (lookup e (lit ''Owner'')))
      in if \<not> truthy profile then Inr None
         else parseProfile profile
                (js_or (lookup e (lit ''custom_name'')) (js_or (lookup e (lit ''CustomName'')) JNull)))"
  by (simp add: extractSkinFromEntity_def or_else_Inr js_or_def Let_def del: lookup.simps)

text \<open>
  Claim C9. Two block-entity compounds that agree on every key other than \<^verbatim>\<open>id\<close> and
  \<^verbatim>\<open>Id\<close> give the same result, alone and at the head of any list of block entities with
  any state of the walk; and a compound none of whose \<^verbatim>\<open>profile\<close>, \<^verbatim>\<open>SkullOwner\<close>,
  \<^verbatim>\<open>Owner\<close> reads is truthy is skipped, whatever its id.
\<close>

theorem entity_id_independence:
  assumes "\<forall>k. k \<noteq> lit ''id'' \<and> k \<noteq> lit ''Id'' \<longrightarrow> map_of kvs1 k = map_of kvs2 k"
  shows "extractSkinFromEntity (JObject kvs1 proto) = extractSkinFromEntity (JObject kvs2 proto)
     \<and> entities_loop (JObject kvs1 proto # rest) st = entities_loop (JObject kvs2 proto # rest) st
     \<and> (\<not> truthy (lookup (JObject kvs1 proto) (lit ''profile'')) \<and>
        \<not> truthy (lookup (JObject kvs1 proto) (lit ''SkullOwner'')) \<and>
        \<not> truthy (lookup (JObject kvs1 proto) (lit ''Owner'')) \<longrightarrow>
        extractSkinFromEntity (JObject kvs1 proto) = Inr None)"
proof -
  have l: "lookup (JObject kvs1 proto) k = lookup (JObject kvs2 proto) k"
    if "k \<noteq> lit ''id''" "k \<noteq> lit ''Id''" for k
    using assms that by simp
  have e: "extractSkinFromEntity (JObject kvs1 proto) = extractSkinFromEntity (JObject kvs2 proto)"
    unfolding extractSkinFromEntity_object Let_def by (simp add: l del: lookup.simps)
  have n: "extractSkinFromEntity (JObject kvs1 proto) = Inr None"
    if "\<not> truthy (lookup (JObject kvs1 proto) (lit ''profile''))"
       "\<not> truthy (lookup (JObject kvs1 proto) (lit ''SkullOwner''))"
       "\<not> truthy (lookup (JObject kvs1 proto) (lit ''Owner''))"
    unfolding extractSkinFromEntity_object Let_def using that
    by (simp add: js_or_def del: lookup.simps)
  from e n show ?thesis by (cases st) simp
qed

text \<open>A chest and a skull with the same owner; a skull without owner.\<close>

theorem entity_id_independence_witness:
  "extractSkinFromEntity
     (JObject [(lit ''id'', JString (lit ''minecraft:chest'')), (lit ''SkullOwner'', JString (lit ''Bob''))] None) =
   extractSkinFromEntity
     (JObject [(lit ''id'', JString (lit ''minecraft:skull'')), (lit ''SkullOwner'', JString (lit ''Bob''))] None)
   \<and> extractSkinFromEntity
     (JObject [(lit ''id'', JString (lit ''minecraft:skull'')), (lit ''SkullOwner'', JString (lit ''Bob''))] None) =
     Inr (Some \<lparr>skin_name = JString (lit ''Bob''), skin_customName = JNull, skin_uuid = JNull,
                skin_textureValue = JNull, skin_textureSignature = JNull\<rparr>)
   \<and> extractSkinFromEntity (JObject [(lit ''id'', JString (lit ''minecraft:skull''))] None) = Inr None"
  using entity_id_independence [of
      "[(lit ''id'', JString (lit ''minecraft:chest'')), (lit ''SkullOwner'', JString (lit ''Bob''))]"
      "[(lit ''id'', JString (lit ''minecraft:skull'')), (lit ''SkullOwner'', JString (lit ''Bob''))]"
      None "[]" "([], [])"]
    entity_id_independence [of
      "[(lit ''id'', JString (lit ''minecraft:skull''))]"
      "[(lit ''id'', JString (lit ''minecraft:skull''))]" None "[]" "([], [])"]
  by (simp add: extractSkinFromEntity_object js_or_def parseProfile_def)



section \<open>Aliased keys\<close>

lemma or_else_Inr_Inr: "or_else (Inr a) (Inr b) = Inr (js_or a b)"
  by (simp add: or_else_def js_or_def)






section \<open>Deduplication\<close>

text \<open>The walk of the code, as a function of the keys seen so far.\<close>

fun keep :: "jsval list \<Rightarrow> skin list \<Rightarrow> skin list" where
  "keep seen [] = []"
| "keep seen (c # cs) =
     (if set_has seen (dedup_key c) then keep seen cs
      else c # keep (seen @ [dedup_key c]) cs)"

lemma set_has_append: "set_has (seen @ [k]) x \<longleftrightarrow> set_has seen x \<or> same_value_zero k x"
  by (auto simp: set_has_def list_ex_iff)

lemma keep_first_wins:
  "keep seen cs = first_wins (filter (\<lambda>d. \<not> set_has seen (dedup_key d)) cs)"
proof (induction cs arbitrary: seen)
  case Nil
  then show ?case by simp
next
  case (Cons c cs)
  show ?case
  proof (cases "set_has seen (dedup_key c)")
    case True
    then show ?thesis by (simp add: Cons.IH)
  next
    case False
    have "filter (\<lambda>d. \<not> set_has (seen @ [dedup_key c]) (dedup_key d)) cs =
          filter (\<lambda>d. \<not> same_value_zero (dedup_key c) (dedup_key d))
            (filter (\<lambda>d. \<not> set_has seen (dedup_key d)) cs)"
      by (auto simp: set_has_append intro: filter_cong)
    with False show ?thesis by (simp add: Cons.IH)
  qed
qed

lemma keep_Nil_first_wins: "keep [] cs = first_wins cs"
  by (simp add: keep_first_wins set_has_def)

lemma keep_append:
  "keep seen (as @ bs) = keep seen as @ keep (seen @ map dedup_key (keep seen as)) bs"
  by (induction as arbitrary: seen) simp_all

lemma set_first_wins: "set (first_wins cs) \<subseteq> set cs"
  by (induction cs rule: first_wins.induct) auto

lemma first_wins_distinct_keys:
  "sorted_wrt (\<lambda>a b. \<not> same_value_zero (dedup_key a) (dedup_key b)) (first_wins cs)"
proof (induction cs rule: first_wins.induct)
  case 1
  then show ?case by simp
next
  case (2 c cs)
  let ?Q = "\<lambda>d. \<not> same_value_zero (dedup_key c) (dedup_key d)"
  have "?Q d" if "d \<in> set (first_wins (filter ?Q cs))" for d
  proof -
    from set_first_wins [of "filter ?Q cs"] that have "d \<in> set (filter ?Q cs)" by (rule subsetD)
    then show ?thesis by simp
  qed
  then have "\<forall>d \<in> set (first_wins (filter ?Q cs)). ?Q d" by blast
  moreover have "first_wins (c # cs) = c # first_wins (filter ?Q cs)" by (rule first_wins.simps)
  ultimately show ?case using "2.IH" by (simp only: sorted_wrt.simps)
qed

lemma first_wins_subseq: "subseq (first_wins cs) cs"
proof (induction cs rule: first_wins.induct)
  case 1
  then show ?case by simp
next
  case (2 c cs)
  have "subseq (filter (\<lambda>d. \<not> same_value_zero (dedup_key c) (dedup_key d)) cs) cs"
    by simp
  with 2 have "subseq (first_wins (filter (\<lambda>d. \<not> same_value_zero (dedup_key c) (dedup_key d)) cs)) cs"
    by (rule subseq_order.trans)
  then show ?case by simp
qed


lemma truthy_js_or: "truthy (js_or a b) \<longleftrightarrow> truthy a \<or> truthy b"
  by (simp add: js_or_def)

lemma parseProfile_key:
  assumes "truthy profile" "parseProfile profile cn = Inr (Some sk)"
  shows "truthy (dedup_key sk)"
proof (cases "isString profile")
  case True
  with assms show ?thesis
    by (auto simp: parseProfile_def dedup_key_def truthy_js_or)
next
  case False
  with assms(2) show ?thesis
    by (auto simp: parseProfile_def dedup_key_def truthy_js_or split: sum.splits if_splits)
qed

lemma extractSkinFromEntity_key:
  "extractSkinFromEntity entity = Inr (Some sk) \<Longrightarrow> truthy (dedup_key sk)"
  by (auto simp: extractSkinFromEntity_def split: sum.splits if_splits dest: parseProfile_key)

lemma entities_loop_keep:
  "entities_loop es (skins, seen) =
     map_sum id (\<lambda>rs. (skins @ keep seen (somes rs), seen @ map dedup_key (keep seen (somes rs))))
       (map_result extractSkinFromEntity es)"
proof (induction es arbitrary: skins seen)
  case Nil
  then show ?case by (simp add: somes_def)
next
  case (Cons e es)
  show ?case
  proof (cases "extractSkinFromEntity e")
    case (Inl err)
    then show ?thesis by simp
  next
    case (Inr r)
    show ?thesis
    proof (cases r)
      case None
      with Inr Cons.IH [of skins seen] show ?thesis
        by (cases "map_result extractSkinFromEntity es") (simp_all add: somes_def Let_def)
    next
      case (Some sk)
      with Inr have t: "truthy (dedup_key sk)" by (simp add: extractSkinFromEntity_key)
      show ?thesis
      proof (cases "set_has seen (dedup_key sk)")
        case True
        with Inr Some t Cons.IH [of skins seen] show ?thesis
          by (cases "map_result extractSkinFromEntity es") (simp_all add: somes_def Let_def)
      next
        case False
        with Inr Some t Cons.IH [of "skins @ [sk]" "seen @ [dedup_key sk]"] show ?thesis
          by (cases "map_result extractSkinFromEntity es") (simp_all add: somes_def Let_def)
      qed
    qed
  qed
qed

lemma regions_loop_keep:
  "regions_loop regions ks (skins, seen) =
     map_sum id (\<lambda>cs. (skins @ keep seen cs, seen @ map dedup_key (keep seen cs)))
       (regions_profiles regions ks)"
proof (induction ks arbitrary: skins seen)
  case Nil
  then show ?case by simp
next
  case (Cons k ks)
  show ?case
  proof (cases "region_entities regions k")
    case (Inl err)
    then show ?thesis
      by (auto simp: region_entities_def split: sum.splits)
  next
    case (Inr entities)
    then have r: "regions_loop regions (k # ks) (skins, seen) =
        (case entities_loop entities (skins, seen) of Inl e \<Rightarrow> Inl e
         | Inr st' \<Rightarrow> regions_loop regions ks st')"
      by (auto simp: region_entities_def split: sum.splits)
    show ?thesis
    proof (cases "map_result extractSkinFromEntity entities")
      case (Inl err)
      with Inr r show ?thesis by (simp add: entities_loop_keep)
    next
      case rs: (Inr rs)
      show ?thesis
      proof (cases "regions_profiles regions ks")
        case (Inl err)
        with Inr r rs Cons.IH show ?thesis by (simp add: entities_loop_keep)
      next
        case others: (Inr others)
        with Inr r rs Cons.IH show ?thesis by (simp add: entities_loop_keep keep_append)
      qed
    qed
  qed
qed

lemma extractSkinsFromNBT_first_wins:
  "extractSkinsFromNBT nbtData = map_sum id first_wins (all_profiles nbtData)"
  unfolding extractSkinsFromNBT_def all_profiles_def
  by (auto simp: regions_loop_keep keep_Nil_first_wins map_sum.compositionality comp_def id_def
      split: sum.splits)


lemma first_wins_represents:
  "c \<in> set cs \<Longrightarrow>
   c \<in> set (first_wins cs) \<or>
   (\<exists>d \<in> set (first_wins cs). same_value_zero (dedup_key d) (dedup_key c))"
proof (induction cs rule: first_wins.induct)
  case 1
  then show ?case by simp
next
  case (2 x xs)
  let ?Q = "\<lambda>d. \<not> same_value_zero (dedup_key x) (dedup_key d)"
  have fw: "first_wins (x # xs) = x # first_wins (filter ?Q xs)" by (rule first_wins.simps)
  show ?case
  proof (cases "c = x \<or> same_value_zero (dedup_key x) (dedup_key c)")
    case True
    then show ?thesis unfolding fw by auto
  next
    case False
    with "2.prems" have "c \<in> set (filter ?Q xs)" by simp
    from "2.IH" [OF this] show ?thesis unfolding fw by auto
  qed
qed

lemma entities_loop_same_texture:
  assumes "extractSkinFromEntity e1 = Inr (Some s1)" "extractSkinFromEntity e2 = Inr (Some s2)"
    and "skin_textureValue s1 = JString t" "skin_textureValue s2 = JString t" "t \<noteq> []"
  shows "entities_loop [e1, e2] ([], []) = Inr ([s1], [JString t])"
  using assms
  by (simp add: dedup_key_def js_or_def set_has_def same_value_zero_def Let_def)

lemma first_wins_primitive_keys:
  "sorted_wrt (\<lambda>a b. isObject (dedup_key a) \<or> dedup_key a \<noteq> dedup_key b) (first_wins cs)"
proof (rule sorted_wrt_mono_rel [OF _ first_wins_distinct_keys])
  fix a b
  assume "\<not> same_value_zero (dedup_key a) (dedup_key b)"
  then show "isObject (dedup_key a) \<or> dedup_key a \<noteq> dedup_key b"
    by (auto simp: same_value_zero_def)
qed

lemma first_wins_keeps_objects:
  "c \<in> set cs \<Longrightarrow> isObject (dedup_key c) \<Longrightarrow> c \<in> set (first_wins cs)"
proof -
  assume c: "c \<in> set cs" and o: "isObject (dedup_key c)"
  have "\<not> same_value_zero k (dedup_key c)" for k
    using o by (cases "dedup_key c") (auto simp: same_value_zero_def is_zero_def)
  with first_wins_represents [OF c] show ?thesis by blast
qed

text \<open>
  Claim C6, as the code has it. The result of \<^verbatim>\<open>extractSkinsFromNBT\<close> is the traversal
  (the regions in the order in which \<^verbatim>\<open>for...in\<close> lists the keys of the regions object,
  the block entities of a region in list order) with the first-occurrence rule applied,
  and fails exactly when the traversal fails. Keys are compared as \<^verbatim>\<open>Set.has\<close> compares
  them: strings, numbers and BigInts by value, objects by identity, and every object of
  the tree is an object of its own. So no two kept profiles have the same key unless
  the key is an object, what is kept is a subsequence of the traversal, every profile
  of the traversal is kept or has its key on a kept profile, and every profile whose key
  is an object is kept. Two block entities
  whose profiles carry the same texture string leave one profile, that of the first.
\<close>

theorem dedup_first_wins:
  "extractSkinsFromNBT nbtData = map_sum id first_wins (all_profiles nbtData)
   \<and> sorted_wrt (\<lambda>a b. \<not> same_value_zero (dedup_key a) (dedup_key b)) (first_wins cs)
   \<and> sorted_wrt (\<lambda>a b. isObject (dedup_key a) \<or> dedup_key a \<noteq> dedup_key b) (first_wins cs)
   \<and> subseq (first_wins cs) cs
   \<and> (\<forall>c \<in> set cs. c \<in> set (first_wins cs) \<or>
         (\<exists>d \<in> set (first_wins cs). same_value_zero (dedup_key d) (dedup_key c)))
   \<and> (\<forall>c \<in> set cs. isObject (dedup_key c) \<longrightarrow> c \<in> set (first_wins cs))
   \<and> (extractSkinFromEntity e1 = Inr (Some s1) \<and> extractSkinFromEntity e2 = Inr (Some s2) \<and>
      skin_textureValue s1 = JString t \<and> skin_textureValue s2 = JString t \<and> t \<noteq> []
      \<longrightarrow> entities_loop [e1, e2] ([], []) = Inr ([s1], [JString t]))"
  using extractSkinsFromNBT_first_wins first_wins_distinct_keys first_wins_primitive_keys
    first_wins_subseq first_wins_represents first_wins_keeps_objects entities_loop_same_texture
  by blast

text \<open>
  Two regions: the first holds two skulls with the same texture in the new and in the
  old layout, the second holds the same owner twice around a chest.
\<close>

theorem dedup_first_wins_witness:
  "extractSkinsFromNBT
   \<lparr>doc_name = [], doc_value = JObject [(lit ''Regions'', JObject
     [(lit ''a'', JObject [(lit ''BlockEntities'', JArray
         [JObject [(lit ''id'', JString (lit ''minecraft:skull'')),
                   (lit ''profile'', JObject [(lit ''properties'', JArray
                      [JObject [(lit ''name'', JString (lit ''textures'')),
                                (lit ''value'', JString (lit ''dGV4''))] None])] None)] None,
          JObject [(lit ''SkullOwner'', JObject [(lit ''Name'', JString (lit ''Ann'')),
                     (lit ''Properties'', JObject [(lit ''textures'', JArray
                        [JObject [(lit ''Value'', JString (lit ''dGV4''))] None])] None)] None)] None])] None),
      (lit ''b'', JObject [(lit ''TileEntities'', JArray
         [JObject [(lit ''Owner'', JString (lit ''Bob''))] None,
          JObject [(lit ''id'', JString (lit ''minecraft:chest''))] None,
          JObject [(lit ''Owner'', JString (lit ''Bob''))] None])] None)] None)] None\<rparr> =
   Inr [\<lparr>skin_name = JNull, skin_customName = JNull, skin_uuid = JNull,
          skin_textureValue = JString (lit ''dGV4''), skin_textureSignature = JUndefined\<rparr>,
        \<lparr>skin_name = JString (lit ''Bob''), skin_customName = JNull, skin_uuid = JNull,
          skin_textureValue = JNull, skin_textureSignature = JNull\<rparr>]
   \<and> entities_loop
       [JObject [(lit ''id'', JString (lit ''minecraft:skull'')),
                 (lit ''profile'', JObject [(lit ''properties'', JArray
                    [JObject [(lit ''name'', JString (lit ''textures'')),
                              (lit ''value'', JString (lit ''dGV4''))] None])] None)] None,
        JObject [(lit ''SkullOwner'', JObject [(lit ''Name'', JString (lit ''Ann'')),
                   (lit ''Properties'', JObject [(lit ''textures'', JArray
                      [JObject [(lit ''Value'', JString (lit ''dGV4''))] None])] None)] None)] None]
       ([], []) =
     Inr ([\<lparr>skin_name = JNull, skin_customName = JNull, skin_uuid = JNull,
            skin_textureValue = JString (lit ''dGV4''), skin_textureSignature = JUndefined\<rparr>],
          [JString (lit ''dGV4'')])"
  using dedup_first_wins [of
     "\<lparr>doc_name = [], doc_value = JObject [(lit ''Regions'', JObject
     [(lit ''a'', JObject [(lit ''BlockEntities'', JArray
         [JObject [(lit ''id'', JString (lit ''minecraft:skull'')),
                   (lit ''profile'', JObject [(lit ''properties'', JArray
                      [JObject [(lit ''name'', JString (lit ''textures'')),
                                (lit ''value'', JString (lit ''dGV4''))] None])] None)] None,
          JObject [(lit ''SkullOwner'', JObject [(lit ''Name'', JString (lit ''Ann'')),
                     (lit ''Properties'', JObject [(lit ''textures'', JArray
                        [JObject [(lit ''Value'', JString (lit ''dGV4''))] None])] None)] None)] None])] None),
      (lit ''b'', JObject [(lit ''TileEntities'', JArray
         [JObject [(lit ''Owner'', JString (lit ''Bob''))] None,
          JObject [(lit ''id'', JString (lit ''minecraft:chest''))] None,
          JObject [(lit ''Owner'', JString (lit ''Bob''))] None])] None)] None)] None\<rparr>"
     "[]"
     "JObject [(lit ''id'', JString (lit ''minecraft:skull'')),
                 (lit ''profile'', JObject [(lit ''properties'', JArray
                    [JObject [(lit ''name'', JString (lit ''textures'')),
                              (lit ''value'', JString (lit ''dGV4''))] None])] None)] None"
     "\<lparr>skin_name = JNull, skin_customName = JNull, skin_uuid = JNull,
            skin_textureValue = JString (lit ''dGV4''), skin_textureSignature = JUndefined\<rparr>"
     "JObject [(lit ''SkullOwner'', JObject [(lit ''Name'', JString (lit ''Ann'')),
                   (lit ''Properties'', JObject [(lit ''textures'', JArray
                      [JObject [(lit ''Value'', JString (lit ''dGV4''))] None])] None)] None)] None"
     "\<lparr>skin_name = JString (lit ''Ann''), skin_customName = JNull, skin_uuid = JNull,
            skin_textureValue = JString (lit ''dGV4''), skin_textureSignature = JUndefined\<rparr>"
     "lit ''dGV4''"]
  by (simp add: all_profiles_def region_entities_def extractSkinFromEntity_def parseProfile_def
      textures_of_def value_and_signature_def uuid_of_id_def or_else_def dedup_key_def js_or_def
      set_has_def same_value_zero_def Let_def somes_def is_zero_def)


text \<open>
  Claim C6 as stated fails: two block entities whose texture value is the same compound
  \<^verbatim>\<open>{a: 1}\<close> both stay in the result, with identical keys, because a \<^verbatim>\<open>Set\<close> holds
  objects by identity.
\<close>

theorem dedup_object_key_counterexample:
  "extractSkinsFromNBT
   \<lparr>doc_name = [], doc_value = JObject [(lit ''Regions'', JObject
     [(lit ''r'', JObject [(lit ''BlockEntities'', JArray
         [JObject [(lit ''profile'', JObject [(lit ''properties'', JArray
                      [JObject [(lit ''name'', JString (lit ''textures'')),
                                (lit ''value'', JObject [(lit ''a'', jsint 1)] None)] None])] None)] None,
          JObject [(lit ''profile'', JObject [(lit ''properties'', JArray
                      [JObject [(lit ''name'', JString (lit ''textures'')),
                                (lit ''value'', JObject [(lit ''a'', jsint 1)] None)] None])] None)] None])]
        None)] None)] None\<rparr> =
   Inr [\<lparr>skin_name = JNull, skin_customName = JNull, skin_uuid = JNull,
          skin_textureValue = JObject [(lit ''a'', jsint 1)] None, skin_textureSignature = JUndefined\<rparr>,
        \<lparr>skin_name = JNull, skin_customName = JNull, skin_uuid = JNull,
          skin_textureValue = JObject [(lit ''a'', jsint 1)] None, skin_textureSignature = JUndefined\<rparr>]
   \<and> dedup_key \<lparr>skin_name = JNull, skin_customName = JNull, skin_uuid = JNull,
          skin_textureValue = JObject [(lit ''a'', jsint 1)] None, skin_textureSignature = JUndefined\<rparr> =
       JObject [(lit ''a'', jsint 1)] None"
  by (simp add: extractSkinsFromNBT_def extractSkinFromEntity_def parseProfile_def
      textures_of_def value_and_signature_def uuid_of_id_def or_else_def dedup_key_def js_or_def
      set_has_def same_value_zero_def Let_def)


section \<open>Failure of the extractor\<close>

lemma get_prop_not_nullish: "not_nullish v \<Longrightarrow> get_prop v k = Inr (lookup v k)"
  by (simp add: get_prop_def not_nullish_def)

lemma truthy_not_nullish: "truthy v \<Longrightarrow> not_nullish v"
  by (cases v) (simp_all add: not_nullish_def)

lemma map_result_Inr:
  "(\<And>x. x \<in> set xs \<Longrightarrow> \<exists>y. f x = Inr y) \<Longrightarrow> \<exists>ys. map_result f xs = Inr ys"
proof (induction xs)
  case Nil
  then show ?case by simp
next
  case (Cons x xs)
  from Cons.prems obtain y where y: "f x = Inr y" by auto
  from Cons obtain ys where ys: "map_result f xs = Inr ys" by auto
  from y ys show ?case by simp
qed

lemma element_number_total:
  "convertible v \<Longrightarrow> \<exists>n. element_number v = Inr n"
  "list_all convertible vs \<Longrightarrow> \<exists>ns. elements_numbers vs = Inr ns"
proof (induction v and vs rule: element_number_elements_numbers.induct)
  case (8 vs)
  then obtain ns where "elements_numbers vs = Inr ns" by auto
  then show ?case by simp
next
  case (11 v vs)
  then obtain n ns where "element_number v = Inr n" "elements_numbers vs = Inr ns" by auto
  then show ?case by simp
qed simp_all

lemma uuid_part_convertible: "convertible v \<Longrightarrow> \<exists>s. uuid_part v = Inr s"
proof -
  assume "convertible v"
  then obtain n where n: "element_number v = Inr n" using element_number_total(1) by blast
  show ?thesis
  proof (cases v)
    case (JArray vs)
    then have "uuid_part v = map_sum id (\<lambda>n. padStart8 (hex_digits (toUint32 n))) (element_number v)"
      by (simp del: element_number.simps)
    then show ?thesis by (simp add: n)
  next
    case (JObject kvs proto)
    then have "uuid_part v = map_sum id (\<lambda>n. padStart8 (hex_digits (toUint32 n))) (element_number v)"
      by (simp del: element_number.simps)
    then show ?thesis by (simp add: n)
  qed simp_all
qed

lemma intArrayToUUID_total:
  "length vs = 4 \<longrightarrow> list_all convertible vs \<Longrightarrow> \<exists>u. intArrayToUUID (JArray vs) = Inr u"
proof (cases "length vs = 4")
  case True
  assume "length vs = 4 \<longrightarrow> list_all convertible vs"
  with True have "\<And>x. x \<in> set vs \<Longrightarrow> \<exists>s. uuid_part x = Inr s"
    by (simp add: list_all_iff uuid_part_convertible)
  then obtain parts where "map_result uuid_part vs = Inr parts"
    using map_result_Inr by blast
  with True show ?thesis by (simp add: intArrayToUUID.simps Let_def)
next
  case False
  then show ?thesis by (simp add: intArrayToUUID.simps)
qed

lemma typed_parts_convertible:
  "list_all convertible (map (lookup (JInt8Array xs)) ks)"
  "list_all convertible (map (lookup (JInt32Array xs)) ks)"
  by (auto simp: list_all_iff jsint_def split: option.splits)

lemma uuid_of_id_parts:
  assumes "isObject i" "\<not> isArray i"
    and "list_all (\<lambda>v. v \<noteq> JUndefined) (map (lookup i) [lit ''0'', lit ''1'', lit ''2'', lit ''3''])
         \<longrightarrow> list_all convertible (map (lookup i) [lit ''0'', lit ''1'', lit ''2'', lit ''3''])"
  shows "\<exists>u. uuid_of_id i = Inr u"
proof -
  let ?parts = "map (lookup i) [lit ''0'', lit ''1'', lit ''2'', lit ''3'']"
  have n: "i \<noteq> JUndefined" "i \<noteq> JNull" "truthy i" using assms(1) by (cases i; simp)+
  have m: "map_result (\<lambda>k. or_else (get_prop i k) (get_prop i k)) [lit ''0'', lit ''1'', lit ''2'', lit ''3'']
      = Inr ?parts"
    using n by (simp add: or_else_same get_prop_Inr del: lookup.simps)
  have u: "uuid_of_id i =
      (if list_all (\<lambda>v. v \<noteq> JUndefined) ?parts then intArrayToUUID (JArray ?parts) else Inr JNull)"
    unfolding uuid_of_id_def m using assms(1,2) n(3) by (simp del: lookup.simps list.map)
  show ?thesis
  proof (cases "list_all (\<lambda>v. v \<noteq> JUndefined) ?parts")
    case True
    with assms(3) have "list_all convertible ?parts" by blast
    with intArrayToUUID_total [of ?parts] obtain w where "intArrayToUUID (JArray ?parts) = Inr w"
      by blast
    with True u show ?thesis by (simp del: lookup.simps list.map)
  next
    case False
    with u show ?thesis by (simp del: lookup.simps list.map)
  qed
qed

lemma uuid_of_id_total: "ok_id i \<Longrightarrow> \<exists>u. uuid_of_id i = Inr u"
proof (cases i)
  case (JNum n)
  then show ?thesis
    by (cases n) (auto simp: uuid_of_id_def number_toString16_def)
next
  case (JArray vs)
  assume "ok_id i"
  with JArray have "length vs = 4 \<longrightarrow> list_all convertible vs"
    by (auto simp: ok_id_def list_all_iff part_ok_def)
  with JArray intArrayToUUID_total [of vs] show ?thesis
    by (auto simp: uuid_of_id_def)
next
  case (JObject kvs proto)
  let ?parts = "map (lookup i) [lit ''0'', lit ''1'', lit ''2'', lit ''3'']"
  assume "ok_id i"
  with JObject have "list_all (\<lambda>v. v \<noteq> JUndefined) ?parts \<longrightarrow> list_all part_ok ?parts"
    by (simp add: ok_id_def del: lookup.simps list.map)
  then have "list_all (\<lambda>v. v \<noteq> JUndefined) ?parts \<longrightarrow> list_all convertible ?parts"
    by (auto simp: list_all_iff part_ok_def simp del: lookup.simps list.map)
  with JObject uuid_of_id_parts [of i] show ?thesis by (simp del: lookup.simps list.map)
next
  case (JInt8Array xs)
  show ?thesis unfolding JInt8Array
    by (rule uuid_of_id_parts) (simp_all add: typed_parts_convertible del: lookup.simps list.map)
next
  case (JInt32Array xs)
  show ?thesis unfolding JInt32Array
    by (rule uuid_of_id_parts) (simp_all add: typed_parts_convertible del: lookup.simps list.map)
qed (simp_all add: uuid_of_id_def)


lemma value_and_signature_total: "not_nullish t \<Longrightarrow> \<exists>r. value_and_signature t = Inr r"
  by (simp add: value_and_signature_def get_prop_not_nullish or_else_Inr_Inr del: lookup.simps)

lemma find_textures_total:
  "find_ok ps \<Longrightarrow> \<exists>r. find_textures ps = Inr r \<and> (truthy r \<longrightarrow> not_nullish r)"
proof (induction ps)
  case Nil
  then show ?case by simp
next
  case (Cons p ps)
  then show ?case
    by (auto simp: get_prop_not_nullish simp del: lookup.simps)
qed

lemma textures_of_total: "ok_properties p \<Longrightarrow> \<exists>r. textures_of p = Inr r"
proof (cases "truthy p")
  case False
  then show ?thesis by (simp add: textures_of_def)
next
  case True
  assume ok: "ok_properties p"
  show ?thesis
  proof (cases "isArray p")
    case True
    then obtain ps where p: "p = JArray ps" by (cases p) simp_all
    with ok have "find_ok ps" by (simp add: ok_properties_def)
    then obtain r where r: "find_textures ps = Inr r" "truthy r \<longrightarrow> not_nullish r"
      using find_textures_total by blast
    show ?thesis
    proof (cases "truthy r")
      case True
      with r value_and_signature_total [of r] p show ?thesis
        by (auto simp: textures_of_def)
    next
      case False
      with r p show ?thesis by (simp add: textures_of_def)
    qed
  next
    case False
    define textures where
      "textures = js_or (lookup p (lit ''textures'')) (js_or (lookup p (lit ''Textures'')) (JArray []))"
    have g: "or_else (get_prop p (lit ''textures''))
                (or_else (get_prop p (lit ''Textures'')) (Inr (JArray []))) = Inr textures"
      using \<open>truthy p\<close>
      by (simp add: get_prop_truthy or_else_Inr_Inr textures_def del: lookup.simps)
    have t: "textures_of p =
        (case textures of JArray (texture # ts) \<Rightarrow> value_and_signature texture
         | _ \<Rightarrow> Inr (JNull, JNull))"
      using False \<open>truthy p\<close> unfolding textures_of_def g
      by (cases p) simp_all
    from ok False have k: "case textures of JArray (t # ts) \<Rightarrow> not_nullish t | _ \<Rightarrow> True"
      unfolding ok_properties_def textures_def by (cases p) simp_all
    show ?thesis
    proof (cases textures)
      case (JArray vs)
      show ?thesis
      proof (cases vs)
        case Nil
        with JArray t show ?thesis by simp
      next
        case (Cons x xs)
        with JArray k have "not_nullish x" by simp
        with value_and_signature_total [of x] JArray Cons t show ?thesis by simp
      qed
    qed (simp_all add: t)
  qed
qed

lemma parseProfile_total:
  assumes "truthy p" "ok_profile p"
  shows "\<exists>r. parseProfile p cn = Inr r"
proof (cases "isString p")
  case True
  then show ?thesis by (simp add: parseProfile_def)
next
  case False
  define name where
    "name = js_or (lookup p (lit ''Name'')) (js_or (lookup p (lit ''name'')) JNull)"
  define id' where
    "id' = js_or (lookup p (lit ''Id'')) (js_or (lookup p (lit ''id''))
                (js_or (lookup p (lit ''UUID'')) (lookup p (lit ''uuid''))))"
  define properties where
    "properties = js_or (lookup p (lit ''Properties'')) (lookup p (lit ''properties''))"
  from assms False have "ok_id id'" "ok_properties properties"
    by (simp_all add: ok_profile_def id'_def properties_def)
  then obtain u r where u: "uuid_of_id id' = Inr u" and r: "textures_of properties = Inr r"
    using uuid_of_id_total textures_of_total by blast
  have "parseProfile p cn =
      (case uuid_of_id id' of Inl e \<Rightarrow> Inl e
       | Inr uuid \<Rightarrow>
          (case textures_of properties of Inl e \<Rightarrow> Inl e
           | Inr (textureValue, textureSignature) \<Rightarrow>
              if \<not> truthy name \<and> \<not> truthy uuid \<and> \<not> truthy textureValue then Inr None
              else Inr (Some \<lparr>skin_name = name, skin_customName = cn, skin_uuid = uuid,
                               skin_textureValue = textureValue,
                               skin_textureSignature = textureSignature\<rparr>)))"
    using False assms(1) unfolding name_def id'_def properties_def
    by (simp add: parseProfile_def get_prop_truthy or_else_Inr_Inr
        del: lookup.simps cong: sum.case_cong)
  with u r show ?thesis by (cases r) simp
qed

lemma extractSkinFromEntity_total:
  assumes "ok_entity e"
  shows "\<exists>r. extractSkinFromEntity e = Inr r"
proof -
  define profile where
    "profile = js_or (lookup e (lit ''profile''))
                 (js_or (lookup e (lit ''SkullOwner'')) (lookup e (lit ''Owner'')))"
  from assms have n: "not_nullish e" and p: "ok_profile profile"
    by (simp_all add: ok_entity_def profile_def)
  have "extractSkinFromEntity e =
      (if \<not> truthy profile then Inr None
       else parseProfile profile
              (js_or (lookup e (lit ''custom_name'')) (js_or (lookup e (lit ''CustomName'')) JNull)))"
    using n
    by (simp add: extractSkinFromEntity_def get_prop_not_nullish or_else_Inr_Inr profile_def
        del: lookup.simps)
  with p parseProfile_total [of profile] show ?thesis by auto
qed

lemma region_entities_total:
  assumes "not_nullish regions" "ok_region (lookup regions k)"
  shows "\<exists>es. region_entities regions k = Inr es \<and> list_all ok_entity es"
proof -
  from assms(2) have n: "not_nullish (lookup regions k)" by (simp add: ok_region_def)
  from assms(2) obtain es where
    "iterate (js_or (lookup (lookup regions k) (lit ''BlockEntities''))
                (js_or (lookup (lookup regions k) (lit ''TileEntities'')) (JArray []))) = Inr es"
    "list_all ok_entity es"
    by (auto simp: ok_region_def split: sum.splits)
  with assms(1) n show ?thesis
    by (simp add: region_entities_def get_prop_not_nullish or_else_Inr_Inr del: lookup.simps)
qed

lemma regions_profiles_total:
  assumes "not_nullish regions" "list_all (\<lambda>k. ok_region (lookup regions k)) ks"
  shows "\<exists>cs. regions_profiles regions ks = Inr cs"
  using assms(2)
proof (induction ks)
  case Nil
  then show ?case by simp
next
  case (Cons k ks)
  then obtain cs where cs: "regions_profiles regions ks = Inr cs" by auto
  from Cons.prems region_entities_total [OF assms(1), of k] obtain es where
    es: "region_entities regions k = Inr es" "list_all ok_entity es" by auto
  from es(2) have "\<And>x. x \<in> set es \<Longrightarrow> \<exists>y. extractSkinFromEntity x = Inr y"
    by (simp add: list_all_iff extractSkinFromEntity_total)
  then obtain rs where "map_result extractSkinFromEntity es = Inr rs"
    using map_result_Inr by blast
  with cs es show ?case by simp
qed

text \<open>
  Identifiers the code converts rather than rejects: a number with a fraction prints as
  hexadecimal digits, and the four parts of an identifier may be strings, lists, typed
  arrays or compounds.
\<close>

lemma floor_rat_eval:
  "\<lfloor>(numeral a :: rat) / numeral b\<rfloor> = numeral a div numeral b"
  "\<lfloor>- (numeral a :: rat) / numeral b\<rfloor> = - numeral a div numeral b"
  "\<lfloor>(1 :: rat) / numeral b\<rfloor> = 1 div numeral b"
  using floor_divide_of_int_eq [of "numeral a" "numeral b", where ?'a = rat]
    floor_divide_of_int_eq [of "- numeral a" "numeral b", where ?'a = rat]
    floor_divide_of_int_eq [of 1 "numeral b", where ?'a = rat]
  by simp_all

lemma bit_len_eval:
  "bit_len 0 = 0" "bit_len (Suc 0) = 1" "bit_len (numeral k) = Suc (bit_len (numeral k div 2))"
  by (simp_all add: bit_len.simps [of 0] bit_len.simps [of "Suc 0"] bit_len.simps [of "numeral k"])

lemma frac_digits16_eval:
  "frac_digits16 n 0 = []"
  "f \<noteq> 0 \<Longrightarrow> frac_digits16 (numeral k) f =
     hex_digit (nat \<lfloor>16 * f\<rfloor>) # frac_digits16 (pred_numeral k) (16 * f - of_nat (nat \<lfloor>16 * f\<rfloor>))"
  by (simp_all add: frac_digits16.simps [of n 0] frac_digits16.simps [of "numeral k"] Let_def)

lemma hex_digits_eval:
  "hex_digits (numeral k) =
     (if numeral k < (16 :: nat) then [hex_digit (numeral k)]
      else hex_digits (numeral k div 16) @ [hex_digit (numeral k mod 16)])"
  "hex_digits 0 = [hex_digit 0]" "hex_digits (Suc 0) = [hex_digit 1]"
  by (simp_all add: hex_digits.simps [of "numeral k"] hex_digits.simps [of 0] hex_digits.simps [of "Suc 0"])

lemma replicate_eval: "replicate (numeral k) x = x # replicate (pred_numeral k) x"
  by (simp add: numeral_eq_Suc)

lemmas conversion_eval = replicate_eval string_to_number_def decimal_literal_def exponent_part_def
  radix_literal_def radix_value_def digit_of_def trim_def is_space_def Let_def lit_def
  is_digit_def dec_value_def round_double_def exponent2_def pow2_def bit_len_eval
  double_toString16_def int_digits16_def frac_digits16_eval hex_digits_eval hex_digit_def
  floor_rat_eval number_toString16_def toUint32_def padStart8_def slice_def

lemma uuid_of_fraction: "uuid_of_id (JNum (Fin (3 / 2))) = Inr (JString (lit ''1.8''))"
  by (simp add: uuid_of_id_def conversion_eval)

lemma uuid_of_strings:
  "uuid_of_id (JArray [JString (lit ''1''), JString (lit ''2''), JString (lit ''3''),
                       JString (lit ''4'')]) =
     Inr (JString (lit ''00000001-0000-0002-0000-000300000004''))"
  by (simp add: uuid_of_id_def intArrayToUUID.simps conversion_eval)

lemma uuid_part_samples:
  "uuid_part (JString (lit '' 0x10 '')) = Inr (lit ''00000010'')"
  "uuid_part (JString (lit ''-1'')) = Inr (lit ''ffffffff'')"
  "uuid_part (JString (lit ''abc'')) = Inr (lit ''00000000'')"
  "uuid_part (JArray [JString (lit ''7'')]) = Inr (lit ''00000007'')"
  "uuid_part (JArray [jsint 1, jsint 2]) = Inr (lit ''00000000'')"
  "uuid_part (JInt32Array [- 1]) = Inr (lit ''ffffffff'')"
  "uuid_part (JObject [] None) = Inr (lit ''00000000'')"
  "uuid_part (JObject [(lit ''toString'', jsint 1)] None) = Inl TypeError"
  by (simp_all add: conversion_eval ints_number_def jsint_def)

text \<open>
  Claim C5, as the code has it. Extraction returns a sequence for every root whose
  values have the shapes of \<open>ok_root\<close>: the root, the members of the regions value and
  the block entities are not \<^verbatim>\<open>null\<close>; a truthy block-entity field is iterable (a list, a
  typed array or a string); in a properties list the entries up to the first one named
  \<^verbatim>\<open>textures\<close> are not \<^verbatim>\<open>null\<close>, and under a properties compound the first element of a
  textures list is not \<^verbatim>\<open>null\<close>; the parts of a four-part identifier convert to numbers,
  which every value does except a compound with a member named \<^verbatim>\<open>toString\<close> and a list
  holding one, and lists among them nest at most 512 deep. No condition asks for a key to be present or restricts the type of a
  name, of a texture value or of an identifier that is not of four parts: a missing key
  or a falsy value is treated as absent. Compounds with a replaced prototype are left
  out where the code iterates over them or converts them.
\<close>

theorem extraction_total_on_shapes:
  "ok_root nbtData \<Longrightarrow> \<exists>skins. extractSkinsFromNBT nbtData = Inr skins"
proof -
  assume ok: "ok_root nbtData"
  define regions where
    "regions = js_or (lookup (doc_value nbtData) (lit ''Regions''))
                 (js_or (lookup (doc_value nbtData) (lit ''regions'')) (JObject [] None))"
  from ok have n: "not_nullish (doc_value nbtData)"
    and l: "list_all (\<lambda>k. ok_region (lookup regions k)) (for_in_keys regions)"
    by (simp_all add: ok_root_def regions_def Let_def)
  have r: "not_nullish regions"
    unfolding regions_def js_or_def by (auto dest: truthy_not_nullish simp: not_nullish_def)
  from regions_profiles_total [OF r l] obtain cs where
    "regions_profiles regions (for_in_keys regions) = Inr cs" by blast
  with n have "all_profiles nbtData = Inr cs"
    by (simp add: all_profiles_def get_prop_not_nullish or_else_Inr_Inr regions_def
        del: lookup.simps)
  then show ?thesis by (simp add: extractSkinsFromNBT_first_wins)
qed

text \<open>
  The sample root holds the legacy \<^verbatim>\<open>regions\<close> key, a region without block entities, a
  block entity without profile, a number among the block entities, a numeric
  \<^verbatim>\<open>Properties\<close>, the identifier 1.5, an identifier of four strings and a properties
  list with \<^verbatim>\<open>null\<close> after its textures entry.
\<close>

theorem extraction_total_on_shapes_witness:
  "ok_root shapes_sample \<and> (\<exists>skins. extractSkinsFromNBT shapes_sample = Inr skins) \<and>
   extractSkinsFromNBT shapes_sample =
     Inr [\<lparr>skin_name = JNull, skin_customName = JNull, skin_uuid = JString (lit ''x''),
            skin_textureValue = JNull, skin_textureSignature = JNull\<rparr>,
          \<lparr>skin_name = JNull, skin_customName = JNull, skin_uuid = JString (lit ''1.8''),
            skin_textureValue = JNull, skin_textureSignature = JNull\<rparr>,
          \<lparr>skin_name = JNull, skin_customName = JNull,
            skin_uuid = JString (lit ''00000001-0000-0002-0000-000300000004''),
            skin_textureValue = JString (lit ''dGV4''), skin_textureSignature = JUndefined\<rparr>]"
proof -
  have ok: "ok_root shapes_sample"
    by (simp add: shapes_sample_def ok_root_def ok_region_def ok_entity_def ok_profile_def
        ok_id_def part_ok_def ok_properties_def not_nullish_def js_or_def jsint_def Let_def)
  have "extractSkinsFromNBT shapes_sample =
     Inr [\<lparr>skin_name = JNull, skin_customName = JNull, skin_uuid = JString (lit ''x''),
            skin_textureValue = JNull, skin_textureSignature = JNull\<rparr>,
          \<lparr>skin_name = JNull, skin_customName = JNull, skin_uuid = JString (lit ''1.8''),
            skin_textureValue = JNull, skin_textureSignature = JNull\<rparr>,
          \<lparr>skin_name = JNull, skin_customName = JNull,
            skin_uuid = JString (lit ''00000001-0000-0002-0000-000300000004''),
            skin_textureValue = JString (lit ''dGV4''), skin_textureSignature = JUndefined\<rparr>]"
    by (simp add: shapes_sample_def extractSkinsFromNBT_def extractSkinFromEntity_def
        parseProfile_def textures_of_def value_and_signature_def uuid_of_id_def or_else_def
        dedup_key_def js_or_def set_has_def same_value_zero_def Let_def is_zero_def jsint_def
        intArrayToUUID.simps conversion_eval)
  with ok extraction_total_on_shapes [OF ok] show ?thesis by blast
qed

text \<open>
  Claim C5 as stated fails: a region whose \<^verbatim>\<open>BlockEntities\<close> is an int tag decodes
  without error, and the \<^verbatim>\<open>for...of\<close> over the number throws a \<^verbatim>\<open>TypeError\<close>.
\<close>

theorem extraction_type_error_counterexample:
  "parse [10, 0, 0,
      10, 0, 7, 82, 101, 103, 105, 111, 110, 115,
        10, 0, 1, 114,
          3, 0, 13, 66, 108, 111, 99, 107, 69, 110, 116, 105, 116, 105, 101, 115, 0, 0, 0, 5,
        0,
      0,
    0] =
     Inr (\<lparr>doc_name = [], doc_value = JObject [(lit ''Regions'', JObject
            [(lit ''r'', JObject [(lit ''BlockEntities'', jsint 5)] None)] None)] None\<rparr>, 40)
   \<and> extractSkinsFromNBT
       \<lparr>doc_name = [], doc_value = JObject [(lit ''Regions'', JObject
            [(lit ''r'', JObject [(lit ''BlockEntities'', jsint 5)] None)] None)] None\<rparr> =
     Inl TypeError"
  by (simp add: reader_eval extractSkinsFromNBT_def or_else_def jsint_def)


section \<open>Truncated buffers\<close>

text \<open>Reading from a prefix of the buffer.\<close>

lemma getBytes_take:
  "getBytes buf off k = Inr bs \<Longrightarrow>
   getBytes (take n buf) off k = (if off + k \<le> n then Inr bs else Inl RangeError)"
  by (auto simp: getBytes_def drop_take min_def)

lemma map_sum_id_if:
  "map_sum id f (if c then Inr x else Inl e) = (if c then Inr (f x) else Inl e)"
  by simp

lemma readByte_take:
  "readByte buf off = Inr (v, off') \<Longrightarrow>
   readByte (take n buf) off = (if off' \<le> n then Inr (v, off') else Inl RangeError)"
  unfolding readByte_def getInt8_def
  by (auto simp: map_sum_id_Inr getBytes_take)

lemma readUByte_take:
  "readUByte buf off = Inr (v, off') \<Longrightarrow>
   readUByte (take n buf) off = (if off' \<le> n then Inr (v, off') else Inl RangeError)"
  unfolding readUByte_def getUint8_def
  by (auto simp: map_sum_id_Inr getBytes_take)

lemma readShort_take:
  "readShort buf off = Inr (v, off') \<Longrightarrow>
   readShort (take n buf) off = (if off' \<le> n then Inr (v, off') else Inl RangeError)"
  unfolding readShort_def getInt16_def
  by (auto simp: map_sum_id_Inr getBytes_take)

lemma readInt_take:
  "readInt buf off = Inr (v, off') \<Longrightarrow>
   readInt (take n buf) off = (if off' \<le> n then Inr (v, off') else Inl RangeError)"
  unfolding readInt_def getInt32_def
  by (auto simp: map_sum_id_Inr getBytes_take)

lemma readFloat_take:
  "readFloat buf off = Inr (v, off') \<Longrightarrow>
   readFloat (take n buf) off = (if off' \<le> n then Inr (v, off') else Inl RangeError)"
  unfolding readFloat_def getFloat32_def
  by (auto simp: map_sum_id_Inr getBytes_take)

lemma readDouble_take:
  "readDouble buf off = Inr (v, off') \<Longrightarrow>
   readDouble (take n buf) off = (if off' \<le> n then Inr (v, off') else Inl RangeError)"
  unfolding readDouble_def getFloat64_def
  by (auto simp: map_sum_id_Inr getBytes_take)

lemma readLong_take:
  "readLong buf off = Inr (v, off') \<Longrightarrow>
   readLong (take n buf) off = (if off' \<le> n then Inr (v, off') else Inl RangeError)"
  unfolding readLong_def getInt32_def getUint32_def
  by (auto simp: map_sum_id_Inr getBytes_take split: sum.splits if_splits)

lemma readString_take:
  assumes "readString buf off = Inr (v, off')"
  shows "readString (take n buf) off = (if off' \<le> n then Inr (v, off') else Inl RangeError)"
proof -
  from assms obtain len off1 where s: "readShort buf off = Inr (len, off1)"
    by (auto simp: readString_def split: sum.splits)
  note s' = readShort_take [OF s, of n]
  show ?thesis
  proof (cases "len \<le> 0")
    case True
    with assms s s' show ?thesis by (auto simp: readString_def)
  next
    case False
    with assms s obtain bytes where b: "getBytes buf off1 (nat len) = Inr bytes"
      and v: "v = textDecode bytes" "off' = off1 + nat len"
      by (auto simp: readString_def split: sum.splits)
    from getBytes_take [OF b, of n] s' False v show ?thesis
      by (auto simp: readString_def)
  qed
qed


lemma readByteArray_loop_take:
  "readByteArray_loop len i array buf off = Inr (v, off') \<Longrightarrow> off \<le> n \<Longrightarrow>
   readByteArray_loop len i array (take n buf) off = (if off' \<le> n then Inr (v, off') else Inl RangeError)"
proof (induction len i array buf off rule: readByteArray_loop.induct)
  case (1 len i array buf off)
  show ?case
  proof (cases "i < len")
    case True
    with "1.prems" obtain x off1 where r: "readByte buf off = Inr (x, off1)"
      and l: "readByteArray_loop len (i + 1) (array[nat i := x]) buf off1 = Inr (v, off')"
      by (auto simp: readByteArray_loop.simps [of len i] split: sum.splits)
    from readByteArray_loop_off [OF l] have m: "off1 \<le> off'" .
    show ?thesis
    proof (cases "off1 \<le> n")
      case le: True
      from "1.IH" [OF True r refl l le] readByte_take [OF r, of n] True le show ?thesis
        by (simp add: readByteArray_loop.simps [of len i _ "take n buf"])
    next
      case False
      with readByte_take [OF r, of n] True m show ?thesis
        by (simp add: readByteArray_loop.simps [of len i _ "take n buf"])
    qed
  next
    case False
    with "1.prems" show ?thesis
      by (auto simp: readByteArray_loop.simps [of len i])
  qed
qed

lemma readByteArray_take:
  assumes "readByteArray buf off = Inr (v, off')"
  shows "readByteArray (take n buf) off = (if off' \<le> n then Inr (v, off') else Inl RangeError)"
proof -
  from assms obtain len off1 where r: "readInt buf off = Inr (len, off1)"
    by (auto simp: readByteArray_def split: sum.splits)
  from assms r have g: "\<not> len < 0"
    by (auto simp: readByteArray_def split: if_splits)
  from assms r have l: "readByteArray_loop len 0 (replicate (nat len) 0) buf off1 = Inr (v, off')"
    by (auto simp: readByteArray_def split: if_splits)
  from readByteArray_loop_off [OF l] have m: "off1 \<le> off'" .
  show ?thesis
  proof (cases "off1 \<le> n")
    case True
    from readByteArray_loop_take [OF l True] readInt_take [OF r, of n] True g show ?thesis
      by (simp add: readByteArray_def)
  next
    case False
    with readInt_take [OF r, of n] m show ?thesis
      by (simp add: readByteArray_def)
  qed
qed

lemma readIntArray_loop_take:
  "readIntArray_loop len i array buf off = Inr (v, off') \<Longrightarrow> off \<le> n \<Longrightarrow>
   readIntArray_loop len i array (take n buf) off = (if off' \<le> n then Inr (v, off') else Inl RangeError)"
proof (induction len i array buf off rule: readIntArray_loop.induct)
  case (1 len i array buf off)
  show ?case
  proof (cases "i < len")
    case True
    with "1.prems" obtain x off1 where r: "readInt buf off = Inr (x, off1)"
      and l: "readIntArray_loop len (i + 1) (array[nat i := x]) buf off1 = Inr (v, off')"
      by (auto simp: readIntArray_loop.simps [of len i] split: sum.splits)
    from readIntArray_loop_off [OF l] have m: "off1 \<le> off'" .
    show ?thesis
    proof (cases "off1 \<le> n")
      case le: True
      from "1.IH" [OF True r refl l le] readInt_take [OF r, of n] True le show ?thesis
        by (simp add: readIntArray_loop.simps [of len i _ "take n buf"])
    next
      case False
      with readInt_take [OF r, of n] True m show ?thesis
        by (simp add: readIntArray_loop.simps [of len i _ "take n buf"])
    qed
  next
    case False
    with "1.prems" show ?thesis
      by (auto simp: readIntArray_loop.simps [of len i])
  qed
qed

lemma readIntArray_take:
  assumes "readIntArray buf off = Inr (v, off')"
  shows "readIntArray (take n buf) off = (if off' \<le> n then Inr (v, off') else Inl RangeError)"
proof -
  from assms obtain len off1 where r: "readInt buf off = Inr (len, off1)"
    by (auto simp: readIntArray_def split: sum.splits)
  from assms r have g: "\<not> len < 0"
    by (auto simp: readIntArray_def split: if_splits)
  from assms r have l: "readIntArray_loop len 0 (replicate (nat len) 0) buf off1 = Inr (v, off')"
    by (auto simp: readIntArray_def split: if_splits)
  from readIntArray_loop_off [OF l] have m: "off1 \<le> off'" .
  show ?thesis
  proof (cases "off1 \<le> n")
    case True
    from readIntArray_loop_take [OF l True] readInt_take [OF r, of n] True g show ?thesis
      by (simp add: readIntArray_def)
  next
    case False
    with readInt_take [OF r, of n] m show ?thesis
      by (simp add: readIntArray_def)
  qed
qed

lemma readLongArray_loop_take:
  "readLongArray_loop len i array buf off = Inr (v, off') \<Longrightarrow> off \<le> n \<Longrightarrow>
   readLongArray_loop len i array (take n buf) off = (if off' \<le> n then Inr (v, off') else Inl RangeError)"
proof (induction len i array buf off rule: readLongArray_loop.induct)
  case (1 len i array buf off)
  show ?case
  proof (cases "i < len")
    case True
    with "1.prems" obtain x off1 where r: "readLong buf off = Inr (x, off1)"
      and l: "readLongArray_loop len (i + 1) (array @ [JBigInt x]) buf off1 = Inr (v, off')"
      by (auto simp: readLongArray_loop.simps [of len i] split: sum.splits)
    from readLongArray_loop_off [OF l] have m: "off1 \<le> off'" .
    show ?thesis
    proof (cases "off1 \<le> n")
      case le: True
      from "1.IH" [OF True r refl l le] readLong_take [OF r, of n] True le show ?thesis
        by (simp add: readLongArray_loop.simps [of len i _ "take n buf"])
    next
      case False
      with readLong_take [OF r, of n] True m show ?thesis
        by (simp add: readLongArray_loop.simps [of len i _ "take n buf"])
    qed
  next
    case False
    with "1.prems" show ?thesis
      by (auto simp: readLongArray_loop.simps [of len i])
  qed
qed

lemma readLongArray_take:
  assumes "readLongArray buf off = Inr (v, off')"
  shows "readLongArray (take n buf) off = (if off' \<le> n then Inr (v, off') else Inl RangeError)"
proof -
  from assms obtain len off1 where r: "readInt buf off = Inr (len, off1)"
    by (auto simp: readLongArray_def split: sum.splits)
  from assms r have g: "True"
    by (auto simp: readLongArray_def split: if_splits)
  from assms r have l: "readLongArray_loop len 0 ([]) buf off1 = Inr (v, off')"
    by (auto simp: readLongArray_def split: if_splits)
  from readLongArray_loop_off [OF l] have m: "off1 \<le> off'" .
  show ?thesis
  proof (cases "off1 \<le> n")
    case True
    from readLongArray_loop_take [OF l True] readInt_take [OF r, of n] True g show ?thesis
      by (simp add: readLongArray_def)
  next
    case False
    with readInt_take [OF r, of n] m show ?thesis
      by (simp add: readLongArray_def)
  qed
qed


lemma if_le_trans_RangeError:
  "off1 \<le> off' \<Longrightarrow> \<not> off1 \<le> (n :: nat) \<Longrightarrow> \<not> off' \<le> n"
  by simp

lemma read_take:
  "readTag t buf off = Inr (v, off') \<Longrightarrow> off \<le> n \<Longrightarrow>
     off \<le> off' \<and> readTag t (take n buf) off = (if off' \<le> n then Inr (v, off') else Inl RangeError)"
  "readList buf off = Inr (v, off') \<Longrightarrow> off \<le> n \<Longrightarrow>
     off \<le> off' \<and> readList (take n buf) off = (if off' \<le> n then Inr (v, off') else Inl RangeError)"
  "readList_loop it len i l buf off = Inr (vs, off') \<Longrightarrow> off \<le> n \<Longrightarrow>
     off \<le> off' \<and> readList_loop it len i l (take n buf) off =
       (if off' \<le> n then Inr (vs, off') else Inl RangeError)"
  "readCompound buf off = Inr (v, off') \<Longrightarrow> off \<le> n \<Longrightarrow>
     off \<le> off' \<and> readCompound (take n buf) off = (if off' \<le> n then Inr (v, off') else Inl RangeError)"
  "readCompound_loop c buf off = Inr (v, off') \<Longrightarrow> off \<le> n \<Longrightarrow>
     off \<le> off' \<and> readCompound_loop c (take n buf) off =
       (if off' \<le> n then Inr (v, off') else Inl RangeError)"
proof (induction t buf off and buf off and it len i l buf off and buf off and c buf off
       arbitrary: v off' n and v off' n and vs off' n and v off' n and v off' n
       rule: readTag_readList_readList_loop_readCompound_readCompound_loop.induct)
  case (1 tagType buf off)
  show ?case
  proof (cases "tagType = 9 \<or> tagType = 10")
    case True
    then show ?thesis
    proof
      assume t: "tagType = 9"
      with "1.prems" have "readList buf off = Inr (v, off')" by (simp add: readTag.simps)
      with "1.IH"(1) [of v off' n] t "1.prems"(2) show ?thesis by (simp add: readTag.simps)
    next
      assume t: "tagType = 10"
      with "1.prems" have "readCompound buf off = Inr (v, off')" by (simp add: readTag.simps)
      with "1.IH"(2) [of v off' n] t "1.prems"(2) show ?thesis by (simp add: readTag.simps)
    qed
  next
    case False
    with "1.prems" show ?thesis
      apply (simp add: readTag.simps [of tagType] map_sum_id_Inr split: if_splits)
              apply (auto dest: readByte_off readShort_off readInt_off readLong_off readFloat_off
          readDouble_off readString_off readByteArray_off readIntArray_off readLongArray_off
          simp: readByte_take readShort_take readInt_take readLong_take readFloat_take
          readDouble_take readString_take readByteArray_take readIntArray_take readLongArray_take)
      done
  qed
next
  case (2 buf off)
  from "2.prems" obtain itemType off1 len off2 list where
    u: "readUByte buf off = Inr (itemType, off1)" and k: "readInt buf off1 = Inr (len, off2)"
    and l: "readList_loop itemType len 0 [] buf off2 = Inr (list, off')" and v: "v = JArray list"
    by (auto simp: readList.simps split: sum.splits)
  note o = readUByte_off [OF u] readInt_off [OF k]
  show ?case
  proof (cases "off2 \<le> n")
    case True
    from "2.IH" [OF u refl k refl l True] readUByte_take [OF u, of n] readInt_take [OF k, of n]
      True o v show ?thesis
      by (simp add: readList.simps [of "take n buf"])
  next
    case False
    from "2.IH" [OF u refl k refl l, of "max n off2"] o have m: "off2 \<le> off'" by simp
    with False readUByte_take [OF u, of n] readInt_take [OF k, of n] o show ?thesis
      by (simp add: readList.simps [of "take n buf"])
  qed
next
  case (3 itemType len i list buf off)
  show ?case
  proof (cases "i < len")
    case True
    with "3.prems" obtain x off1 where
      r: "readTag itemType buf off = Inr (x, off1)"
      and l: "readList_loop itemType len (i + 1) (list @ [x]) buf off1 = Inr (vs, off')"
      by (auto simp: readList_loop.simps [of _ _ i] split: sum.splits)
    from "3.IH"(1) [OF True r "3.prems"(2)] have
      o: "off \<le> off1" and t: "readTag itemType (take n buf) off =
        (if off1 \<le> n then Inr (x, off1) else Inl RangeError)"
      by simp_all
    from "3.IH"(2) [OF True r refl l, of "max n off1"] have m: "off1 \<le> off'" by simp
    show ?thesis
    proof (cases "off1 \<le> n")
      case le: True
      from "3.IH"(2) [OF True r refl l le] t le True o m show ?thesis
        by (simp add: readList_loop.simps [of _ _ i _ "take n buf"])
    next
      case False
      with t True o m show ?thesis
        by (simp add: readList_loop.simps [of _ _ i _ "take n buf"])
    qed
  next
    case False
    with "3.prems" show ?thesis
      by (auto simp: readList_loop.simps [of _ _ i])
  qed
next
  case (4 buf off)
  from "4.prems" have "readCompound_loop (JObject [] None) buf off = Inr (v, off')"
    by (simp add: readCompound.simps)
  from "4.IH" [OF this "4.prems"(2)] show ?case by (simp add: readCompound.simps)
next
  case (5 compound buf off)
  from "5.prems" obtain tagType off1 where
    u: "readUByte buf off = Inr (tagType, off1)"
    by (auto simp: readCompound_loop.simps [of compound buf] split: sum.splits)
  note o1 = readUByte_off [OF u]
  show ?case
  proof (cases "tagType = 0")
    case True
    with "5.prems" u have "v = compound" "off' = off1"
      by (simp_all add: readCompound_loop.simps [of compound buf])
    with True readUByte_take [OF u, of n] o1 show ?thesis
      by (simp add: readCompound_loop.simps [of compound "take n buf"])
  next
    case False
    with "5.prems" u obtain name off2 x off3 compound' where
      s: "readString buf off1 = Inr (name, off2)"
      and r: "readTag tagType buf off2 = Inr (x, off3)"
      and p: "set_prop compound name x = Inr compound'"
      and l: "readCompound_loop compound' buf off3 = Inr (v, off')"
      by (auto simp: readCompound_loop.simps [of compound buf] split: sum.splits)
    note o2 = readString_off [OF s]
    from "5.IH"(1) [OF u refl False s refl r, of "max n off2"] have o3: "off2 \<le> off3" by simp
    from "5.IH"(2) [OF u refl False s refl r refl p l, of "max n off3"] have o4: "off3 \<le> off'"
      by simp
    note pre = readUByte_take [OF u, of n] readString_take [OF s, of n]
    show ?thesis
    proof (cases "off2 \<le> n")
      case le2: True
      from "5.IH"(1) [OF u refl False s refl r le2] have
        t: "readTag tagType (take n buf) off2 = (if off3 \<le> n then Inr (x, off3) else Inl RangeError)"
        by simp
      show ?thesis
      proof (cases "off3 \<le> n")
        case le3: True
        from "5.IH"(2) [OF u refl False s refl r refl p l le3] t pre le2 le3 False o1 o2 o3 o4 p
        show ?thesis
          by (simp add: readCompound_loop.simps [of compound "take n buf"])
      next
        case False
        with t pre le2 \<open>tagType \<noteq> 0\<close> o1 o2 o3 o4 show ?thesis
          by (simp add: readCompound_loop.simps [of compound "take n buf"])
      qed
    next
      case False
      with pre \<open>tagType \<noteq> 0\<close> o1 o2 o3 o4 show ?thesis
        by (auto simp: readCompound_loop.simps [of compound "take n buf"])
    qed
  qed
qed


text \<open>
  Claim C2, as the code has it. When a buffer decodes to a document and the reader ends
  at offset \<open>m\<close>, every prefix shorter than \<open>m\<close> fails with a \<^verbatim>\<open>RangeError\<close> and every
  prefix of at least \<open>m\<close> bytes decodes to the same document. So when the reader has
  consumed the whole buffer, every strict prefix fails; a prefix never decodes to a
  different document.
\<close>

theorem truncation:
  "parse buf = Inr (doc, m) \<Longrightarrow>
   parse (take n buf) = (if m \<le> n then Inr (doc, m) else Inl RangeError)"
proof -
  assume a: "parse buf = Inr (doc, m)"
  then obtain rootType off1 where u: "readUByte buf 0 = Inr (rootType, off1)"
    by (auto simp: parse_def split: sum.splits)
  with a have t: "rootType = 10" by (auto simp: parse_def split: if_splits)
  with a u obtain rootName off2 rootCompound where
    s: "readString buf off1 = Inr (rootName, off2)"
    and c: "readCompound buf off2 = Inr (rootCompound, m)"
    and d: "doc = \<lparr>doc_name = rootName, doc_value = rootCompound\<rparr>"
    by (auto simp: parse_def split: sum.splits)
  note o = readUByte_off [OF u] readString_off [OF s]
  note pre = readUByte_take [OF u, of n] readString_take [OF s, of n]
  from read_take(4) [OF c, of "max n off2"] have o3: "off2 \<le> m" by simp
  show ?thesis
  proof (cases "off2 \<le> n")
    case True
    from read_take(4) [OF c True] pre True t d o show ?thesis
      by (simp add: parse_def)
  next
    case False
    with pre t o o3 show ?thesis
      by (auto simp: parse_def)
  qed
qed

text \<open>A document of 13 bytes, cut before its last byte, inside a name and at 0.\<close>

theorem truncation_witness:
  "parse [10, 0, 1, 65, 3, 0, 1, 66, 0, 0, 0, 7, 0] =
     Inr (\<lparr>doc_name = lit ''A'', doc_value = JObject [(lit ''B'', jsint 7)] None\<rparr>, 13)
   \<and> parse (take 12 [10, 0, 1, 65, 3, 0, 1, 66, 0, 0, 0, 7, 0]) = Inl RangeError
   \<and> parse (take 5 [10, 0, 1, 65, 3, 0, 1, 66, 0, 0, 0, 7, 0]) = Inl RangeError
   \<and> parse (take 0 [10, 0, 1, 65, 3, 0, 1, 66, 0, 0, 0, 7, 0]) = Inl RangeError"
proof -
  have p: "parse [10, 0, 1, 65, 3, 0, 1, 66, 0, 0, 0, 7, 0] =
     Inr (\<lparr>doc_name = lit ''A'', doc_value = JObject [(lit ''B'', jsint 7)] None\<rparr>, 13)"
    by (simp add: reader_eval jsint_def)
  from p truncation [OF p, of 12] truncation [OF p, of 5] truncation [OF p, of 0]
  show ?thesis by simp
qed

text \<open>
  Claim C2 as stated fails: \<^verbatim>\<open>parse\<close> does not look at the bytes after the root
  compound, so a buffer with a trailing byte decodes, and so does its strict prefix
  without that byte.
\<close>

theorem truncation_counterexample:
  "parse [10, 0, 0, 0, 255] = Inr (\<lparr>doc_name = [], doc_value = JObject [] None\<rparr>, 4)
   \<and> parse (take 4 [10, 0, 0, 0, 255]) = Inr (\<lparr>doc_name = [], doc_value = JObject [] None\<rparr>, 4)
   \<and> 4 < length [10, 0, 0, 0, 255 :: byte]"
  by (simp add: reader_eval)

section \<open>Round trip\<close>

subsection \<open>Fixed-width numbers at an offset\<close>

text \<open>A byte sequence standing at an offset of the buffer.\<close>

lemma at_off_append:
  "at_off buf off (xs @ ys) \<longleftrightarrow> at_off buf off xs \<and> at_off buf (off + length xs) ys"
proof -
  have "take (length xs + length ys) (drop off buf) =
        take (length xs) (drop off buf) @ take (length ys) (drop (off + length xs) buf)"
    by (simp add: take_add add.commute)
  moreover have "off + length xs \<le> length buf \<Longrightarrow> length (take (length xs) (drop off buf)) = length xs"
    by simp
  ultimately show ?thesis
    unfolding at_off_def by (auto simp: append_eq_append_conv)
qed

lemma at_off_Cons:
  "at_off buf off (x # xs) \<longleftrightarrow> at_off buf off [x] \<and> at_off buf (off + 1) xs"
  using at_off_append [of buf off "[x]" xs] by simp

lemma at_off_Nil [simp]: "at_off buf off [] \<longleftrightarrow> off \<le> length buf"
  by (simp add: at_off_def)

lemma at_off_self: "at_off bs 0 bs"
  by (simp add: at_off_def)

lemma at_off_getBytes: "at_off buf off bs \<Longrightarrow> getBytes buf off (length bs) = Inr bs"
  by (simp add: at_off_def getBytes_def)

lemma be_nat_Cons: "be_nat (b # bs) = unat b * 256 ^ length bs + be_nat bs"
proof -
  have "foldl (\<lambda>n b. 256 * n + unat b) a bs = a * 256 ^ length bs + foldl (\<lambda>n b. 256 * n + unat b) 0 bs"
    for a
  proof (induction bs arbitrary: a)
    case Nil
    then show ?case by simp
  next
    case (Cons x xs)
    from Cons.IH [of "256 * a + unat x"] Cons.IH [of "unat x"] show ?case
      by (simp add: algebra_simps)
  qed
  from this [of "unat b"] show ?thesis by (simp add: be_nat_def)
qed

lemma be_bytes_Suc: "be_bytes (Suc k) v = of_nat (v div 256 ^ k) # be_bytes k v"
  by (simp add: be_bytes_def)

lemma length_be_bytes [simp]: "length (be_bytes k v) = k"
  by (simp add: be_bytes_def)

lemma unat_of_nat_byte: "unat (of_nat n :: byte) = n mod 256"
  by (simp add: unat_of_nat)

lemma be_nat_be_bytes: "be_nat (be_bytes k v) = v mod 256 ^ k"
proof (induction k)
  case 0
  then show ?case by (simp add: be_bytes_def be_nat_def)
next
  case (Suc k)
  have "v mod (256 ^ k * 256) = 256 ^ k * (v div 256 ^ k mod 256) + v mod 256 ^ k"
    by (rule mod_mult2_eq)
  with Suc show ?case
    by (simp add: be_bytes_Suc be_nat_Cons unat_of_nat_byte mult.commute)
qed

lemma be_nat_be_bytes_small: "v < 256 ^ k \<Longrightarrow> be_nat (be_bytes k v) = v"
  by (simp add: be_nat_be_bytes)

lemma word_of_be_bytes_8: "word_of_nat (be_nat [b]) = (b :: 8 word)"
  by (simp add: be_nat_def)

lemma word_of_be_bytes_16: "word_of_nat (be_nat (be_bytes 2 (unat (w :: 16 word)))) = w"
proof -
  have "unat w < 256 ^ 2" using unsigned_less [of w, where ?'a = nat] by simp
  then show ?thesis by (simp add: be_nat_be_bytes_small)
qed

lemma word_of_be_bytes_32: "word_of_nat (be_nat (be_bytes 4 (unat (w :: 32 word)))) = w"
proof -
  have "unat w < 256 ^ 4" using unsigned_less [of w, where ?'a = nat] by simp
  then show ?thesis by (simp add: be_nat_be_bytes_small)
qed

lemma word_of_be_bytes_64: "word_of_nat (be_nat (be_bytes 8 (unat (w :: 64 word)))) = w"
proof -
  have "unat w < 256 ^ 8" using unsigned_less [of w, where ?'a = nat] by simp
  then show ?thesis by (simp add: be_nat_be_bytes_small)
qed

lemma readByte_at: "at_off buf off [b] \<Longrightarrow> readByte buf off = Inr (sint b, off + 1)"
  using at_off_getBytes [of buf off "[b]"]
  by (simp add: readByte_def getInt8_def word_of_be_bytes_8)

lemma readUByte_at: "at_off buf off [b] \<Longrightarrow> readUByte buf off = Inr (unat b, off + 1)"
  using at_off_getBytes [of buf off "[b]"]
  by (simp add: readUByte_def getUint8_def word_of_be_bytes_8)

lemma readShort_at:
  "at_off buf off (be_bytes 2 (unat (w :: 16 word))) \<Longrightarrow> readShort buf off = Inr (sint w, off + 2)"
  using at_off_getBytes [of buf off "be_bytes 2 (unat w)"]
  by (simp add: readShort_def getInt16_def word_of_be_bytes_16)

lemma readInt_at:
  "at_off buf off (be_bytes 4 (unat (w :: 32 word))) \<Longrightarrow> readInt buf off = Inr (sint w, off + 4)"
  using at_off_getBytes [of buf off "be_bytes 4 (unat w)"]
  by (simp add: readInt_def getInt32_def word_of_be_bytes_32)

lemma readFloat_at:
  "at_off buf off (be_bytes 4 (unat (w :: 32 word))) \<Longrightarrow>
   readFloat buf off = Inr (ieee_value 8 23 (unat w), off + 4)"
proof -
  have "unat w < 256 ^ 4" using unsigned_less [of w, where ?'a = nat] by simp
  then show "at_off buf off (be_bytes 4 (unat w)) \<Longrightarrow> ?thesis"
    using at_off_getBytes [of buf off "be_bytes 4 (unat w)"]
    by (simp add: readFloat_def getFloat32_def be_nat_be_bytes_small)
qed

lemma readDouble_at:
  "at_off buf off (be_bytes 8 (unat (w :: 64 word))) \<Longrightarrow>
   readDouble buf off = Inr (ieee_value 11 52 (unat w), off + 8)"
proof -
  have "unat w < 256 ^ 8" using unsigned_less [of w, where ?'a = nat] by simp
  then show "at_off buf off (be_bytes 8 (unat w)) \<Longrightarrow> ?thesis"
    using at_off_getBytes [of buf off "be_bytes 8 (unat w)"]
    by (simp add: readDouble_def getFloat64_def be_nat_be_bytes_small)
qed

lemma be_nat_foldl:
  "foldl (\<lambda>n b. 256 * n + unat (b :: byte)) a ys = a * 256 ^ length ys + be_nat ys"
proof (induction ys arbitrary: a)
  case Nil
  then show ?case by (simp add: be_nat_def)
next
  case (Cons y ys)
  from Cons [of "256 * a + unat y"] Cons [of "unat y"] show ?case
    by (simp add: be_nat_def algebra_simps)
qed

lemma be_nat_append: "be_nat (xs @ ys) = be_nat xs * 256 ^ length ys + be_nat ys"
  using be_nat_foldl [of "be_nat xs" ys] by (simp add: be_nat_def)

lemma be_nat_less: "be_nat bs < 256 ^ length bs"
proof (induction bs)
  case Nil
  then show ?case by (simp add: be_nat_def)
next
  case (Cons b bs)
  have "unat b * 256 ^ length bs + be_nat bs < (unat b + 1) * 256 ^ length bs"
    using Cons by (simp add: algebra_simps)
  also have "\<dots> \<le> 256 * 256 ^ length bs"
    using unat_byte_less [of b] by (intro mult_right_mono) simp_all
  finally show ?case by (simp add: be_nat_Cons)
qed

lemma sint_of_nat_64:
  assumes "n < 2 ^ 64"
  shows "sint (word_of_nat n :: 64 word) = twos_complement 64 n"
proof -
  have u: "uint (word_of_nat n :: 64 word) = int n"
    using assms by (simp add: uint_word_of_int take_bit_eq_mod unsigned_of_nat)
  have "sint (word_of_nat n :: 64 word) = (int n + 2 ^ 63) mod 2 ^ 64 - 2 ^ 63"
    by (simp add: sint_uint u signed_take_bit_eq_take_bit_shift take_bit_eq_mod)
  also have "\<dots> = twos_complement 64 n"
  proof (cases "n < 2 ^ 63")
    case True
    then show ?thesis by (simp add: twos_complement_def mod_pos_pos_trivial)
  next
    case False
    have "int n + 2 ^ 63 = int n - 2 ^ 63 + (2 ^ 64 :: int)" by simp
    then have "(int n + 2 ^ 63) mod 2 ^ 64 = (int n - 2 ^ 63 + 2 ^ 64) mod (2 ^ 64 :: int)"
      by (rule arg_cong)
    also have "\<dots> = (int n - 2 ^ 63) mod 2 ^ 64" by (simp only: mod_add_self2)
    also have "\<dots> = int n - 2 ^ 63" using False assms by (simp add: mod_pos_pos_trivial)
    finally show ?thesis using False by (simp add: twos_complement_def)
  qed
  finally show ?thesis .
qed

lemma sint_twos_complement_64: "sint (w :: 64 word) = twos_complement 64 (unat w)"
proof -
  have "unat w < 2 ^ 64" using unsigned_less [of w, where ?'a = nat] by simp
  from sint_of_nat_64 [OF this] show ?thesis by simp
qed

lemma readLong_at_bytes:
  assumes "at_off buf off bs" "length bs = 8"
  shows "readLong buf off = Inr (twos_complement 64 (be_nat bs), off + 8)"
proof -
  define hi where "hi = take 4 bs"
  define lo where "lo = drop 4 bs"
  have bs: "bs = hi @ lo" and lh: "length hi = 4" and ll: "length lo = 4"
    using assms(2) by (simp_all add: hi_def lo_def)
  from assms(1) have "at_off buf off hi" "at_off buf (off + 4) lo"
    unfolding bs using lh by (simp_all add: at_off_append)
  then have g: "getBytes buf off 4 = Inr hi" "getBytes buf (off + 4) 4 = Inr lo"
    using at_off_getBytes [of buf off hi] at_off_getBytes [of buf "off + 4" lo] lh ll by simp_all
  define H where "H = be_nat hi"
  define L where "L = be_nat lo"
  have H: "H < 2 ^ 32" and L: "L < 2 ^ 32"
    using be_nat_less [of hi] be_nat_less [of lo] lh ll by (simp_all add: H_def L_def)
  have r: "readLong buf off =
      Inr (push_bit 32 (sint (word_of_nat H :: 32 word)) OR uint (word_of_nat L :: 32 word), off + 8)"
    by (simp add: readLong_def getInt32_def getUint32_def g H_def L_def)
  have v: "push_bit 32 (sint (word_of_nat H :: 32 word)) OR uint (word_of_nat L :: 32 word) =
      twos_complement 32 H * 2 ^ 32 + int L"
    using L by (simp add: sint_of_nat_32 [OF H] uint_of_nat_32 [OF L] push_bit_or_add)
  have t: "twos_complement 32 H * 2 ^ 32 + int L = twos_complement 64 (H * 2 ^ 32 + L)"
    using H L by (auto simp: twos_complement_def)
  have e: "be_nat bs = H * 2 ^ 32 + L"
    unfolding bs by (simp add: be_nat_append ll H_def L_def)
  show ?thesis unfolding e using r v t by simp
qed

lemma readLong_at:
  "at_off buf off (be_bytes 8 (unat (w :: 64 word))) \<Longrightarrow> readLong buf off = Inr (sint w, off + 8)"
proof -
  have "unat w < 256 ^ 8" using unsigned_less [of w, where ?'a = nat] by simp
  then have "be_nat (be_bytes 8 (unat w)) = unat w" by (rule be_nat_be_bytes_small)
  then show "at_off buf off (be_bytes 8 (unat w)) \<Longrightarrow> ?thesis"
    using readLong_at_bytes [of buf off "be_bytes 8 (unat w)"]
    by (simp add: sint_twos_complement_64)
qed

text \<open>A count below \<open>2^31\<close> read back as a 32-bit integer.\<close>

lemma readInt_count:
  assumes "at_off buf off (be_bytes 4 n)" "n < 2 ^ 31"
  shows "readInt buf off = Inr (int n, off + 4)"
proof -
  have "n < 256 ^ 4" using assms(2) by simp
  then have b: "be_nat (be_bytes 4 n) = n" by (rule be_nat_be_bytes_small)
  have "n < 2 ^ 32" using assms(2) by simp
  from sint_of_nat_32 [OF this] assms(2)
  have "sint (word_of_nat n :: 32 word) = int n" by (simp add: twos_complement_def)
  with at_off_getBytes [OF assms(1)] b show ?thesis
    by (simp add: readInt_def getInt32_def)
qed

lemma readShort_count:
  assumes "at_off buf off (be_bytes 2 n)" "n < 2 ^ 15"
  shows "readShort buf off = Inr (int n, off + 2)"
proof -
  have "n < 256 ^ 2" using assms(2) by simp
  then have b: "be_nat (be_bytes 2 n) = n" by (rule be_nat_be_bytes_small)
  have "n < 2 ^ 16" using assms(2) by simp
  from sint_of_nat_16 [OF this] assms(2)
  have "sint (word_of_nat n :: 16 word) = int n" by (simp add: twos_complement_def)
  with at_off_getBytes [OF assms(1)] b show ?thesis
    by (simp add: readShort_def getInt16_def)
qed

lemma readString_at:
  assumes "at_off buf off (be_bytes 2 (length bs) @ bs)" "length bs < 2 ^ 15"
  shows "readString buf off = Inr (if bs = [] then [] else textDecode bs, off + 2 + length bs)"
proof -
  from assms(1) have a: "at_off buf off (be_bytes 2 (length bs))" "at_off buf (off + 2) bs"
    by (simp_all add: at_off_append)
  from readShort_count [OF a(1) assms(2)] at_off_getBytes [OF a(2)] show ?thesis
    by (auto simp: readString_def)
qed

subsection \<open>Arrays at an offset\<close>

lemma take_Suc_update: "n < length xs \<Longrightarrow> take (Suc n) (xs[n := v]) = take n xs @ [v]"
  by (simp add: take_Suc_conv_app_nth)

lemma readByteArray_loop_at:
  "at_off buf off bs \<Longrightarrow> 0 \<le> i \<Longrightarrow> len = i + int (length bs) \<Longrightarrow> length array = nat len \<Longrightarrow>
   readByteArray_loop len i array buf off = Inr (take (nat i) array @ map sint bs, off + length bs)"
proof (induction bs arbitrary: i array off)
  case Nil
  then show ?case by (simp add: readByteArray_loop.simps [of _ i])
next
  case (Cons b bs)
  from Cons.prems(1) have a: "at_off buf off [b]" "at_off buf (off + 1) bs"
    by (simp_all add: at_off_Cons [of buf off b bs])
  have i: "i < len" "nat i < length array" "nat (i + 1) = Suc (nat i)"
    using Cons.prems by simp_all
  have "readByteArray_loop len (i + 1) (array[nat i := sint b]) buf (off + 1) =
      Inr (take (nat (i + 1)) (array[nat i := sint b]) @ map sint bs, off + 1 + length bs)"
    using Cons.prems by (intro Cons.IH a) simp_all
  then show ?case
    using i by (simp add: readByteArray_loop.simps [of len i array] readByte_at [OF a(1)]
        take_Suc_update)
qed

lemma readByteArray_at:
  assumes "at_off buf off (be_bytes 4 (length bs) @ bs)" "length bs < 2 ^ 31"
  shows "readByteArray buf off = Inr (map sint bs, off + 4 + length bs)"
proof -
  from assms(1) have a: "at_off buf off (be_bytes 4 (length bs))" "at_off buf (off + 4) bs"
    by (simp_all add: at_off_append)
  from readByteArray_loop_at [OF a(2), of 0 "int (length bs)" "replicate (length bs) 0"]
  show ?thesis by (simp add: readByteArray_def readInt_count [OF a(1) assms(2)])
qed

lemma readIntArray_loop_at:
  "at_off buf off (concat (map (\<lambda>w. be_bytes 4 (unat w)) ws)) \<Longrightarrow> 0 \<le> i \<Longrightarrow>
   len = i + int (length ws) \<Longrightarrow> length array = nat len \<Longrightarrow>
   readIntArray_loop len i array buf off =
     Inr (take (nat i) array @ map sint (ws :: 32 word list), off + 4 * length ws)"
proof (induction ws arbitrary: i array off)
  case Nil
  then show ?case by (simp add: readIntArray_loop.simps [of _ i])
next
  case (Cons w ws)
  from Cons.prems(1) have a: "at_off buf off (be_bytes 4 (unat w))"
    "at_off buf (off + 4) (concat (map (\<lambda>w. be_bytes 4 (unat w)) ws))"
    by (simp_all add: at_off_append)
  have i: "i < len" "nat i < length array" "nat (i + 1) = Suc (nat i)"
    using Cons.prems by simp_all
  have "readIntArray_loop len (i + 1) (array[nat i := sint w]) buf (off + 4) =
      Inr (take (nat (i + 1)) (array[nat i := sint w]) @ map sint ws, off + 4 + 4 * length ws)"
    using Cons.prems by (intro Cons.IH a) simp_all
  then show ?case
    using i by (simp add: readIntArray_loop.simps [of len i array] readInt_at [OF a(1)]
        take_Suc_update)
qed

lemma length_concat_be_bytes [simp]:
  "length (concat (map (\<lambda>w. be_bytes k (f w)) ws)) = k * length ws"
  by (induction ws) simp_all

lemma readIntArray_at:
  assumes "at_off buf off (be_bytes 4 (length ws) @ concat (map (\<lambda>w. be_bytes 4 (unat w)) ws))"
    "length ws < 2 ^ 31"
  shows "readIntArray buf off = Inr (map sint (ws :: 32 word list), off + 4 + 4 * length ws)"
proof -
  from assms(1) have a: "at_off buf off (be_bytes 4 (length ws))"
    "at_off buf (off + 4) (concat (map (\<lambda>w. be_bytes 4 (unat w)) ws))"
    by (simp_all add: at_off_append)
  from readIntArray_loop_at [OF a(2), of 0 "int (length ws)" "replicate (length ws) 0"]
  show ?thesis by (simp add: readIntArray_def readInt_count [OF a(1) assms(2)])
qed

lemma readLongArray_loop_at:
  "at_off buf off (concat (map (\<lambda>w. be_bytes 8 (unat w)) ws)) \<Longrightarrow>
   len = i + int (length ws) \<Longrightarrow>
   readLongArray_loop len i array buf off =
     Inr (array @ map (\<lambda>w. JBigInt (sint w)) (ws :: 64 word list), off + 8 * length ws)"
proof (induction ws arbitrary: i array off)
  case Nil
  then show ?case by (simp add: readLongArray_loop.simps [of _ i])
next
  case (Cons w ws)
  from Cons.prems(1) have a: "at_off buf off (be_bytes 8 (unat w))"
    "at_off buf (off + 8) (concat (map (\<lambda>w. be_bytes 8 (unat w)) ws))"
    by (simp_all add: at_off_append)
  have "readLongArray_loop len (i + 1) (array @ [JBigInt (sint w)]) buf (off + 8) =
      Inr ((array @ [JBigInt (sint w)]) @ map (\<lambda>w. JBigInt (sint w)) ws, off + 8 + 8 * length ws)"
    using Cons.prems by (intro Cons.IH a) simp_all
  then show ?case
    using Cons.prems(2)
    by (simp add: readLongArray_loop.simps [of _ i array] readLong_at [OF a(1)] add.assoc)
qed

lemma readLongArray_at:
  assumes "at_off buf off (be_bytes 4 (length ws) @ concat (map (\<lambda>w. be_bytes 8 (unat w)) ws))"
    "length ws < 2 ^ 31"
  shows "readLongArray buf off =
    Inr (map (\<lambda>w. JBigInt (sint w)) (ws :: 64 word list), off + 4 + 8 * length ws)"
proof -
  from assms(1) have a: "at_off buf off (be_bytes 4 (length ws))"
    "at_off buf (off + 4) (concat (map (\<lambda>w. be_bytes 8 (unat w)) ws))"
    by (simp_all add: at_off_append)
  from readLongArray_loop_at [OF a(2), of "int (length ws)" 0 "[]"]
  show ?thesis by (simp add: readLongArray_def readInt_count [OF a(1) assms(2)])
qed

subsection \<open>UTF-8\<close>

lemma mod_offset: "r < n \<Longrightarrow> (n * k + r) mod n = (r :: nat)"
  by simp

lemma div_mod_parts: "(c :: nat) = n * (c div n) + c mod n"
  by simp

lemma utf8_decoder_1:
  assumes "c < 128"
  shows "utf8_decoder 0 0 128 191 ([c] @ rest) = c # utf8_decoder 0 0 128 191 rest"
  using assms by simp

lemma utf8_decoder_2:
  assumes "128 \<le> c" "c < 2048"
  shows "utf8_decoder 0 0 128 191 ([192 + c div 64, 128 + c mod 64] @ rest) =
    c # utf8_decoder 0 0 128 191 rest"
proof -
  define q where "q = c div 64"
  define r where "r = c mod 64"
  have c: "c = 64 * q + r" unfolding q_def r_def by (rule div_mod_parts)
  have r: "r < 64" unfolding r_def by simp
  have q: "q < 32" unfolding q_def using assms(2) less_mult_imp_div_less [of c 32 64] by simp
  have lo: "2 \<le> q" using assms(1) c r by simp
  have b: "(192 + q) mod 32 = q" "(128 + r) mod 64 = r"
    using mod_offset [OF q, of 6] mod_offset [OF r, of 2] by simp_all
  have "utf8_decoder 0 0 128 191 ([192 + q, 128 + r] @ rest) =
      c # utf8_decoder 0 0 128 191 rest"
    using q r lo b c by simp
  then show ?thesis by (simp only: q_def r_def)
qed

lemma utf8_decoder_3:
  assumes "2048 \<le> c" "c < 65536" "c < 55296 \<or> 57344 \<le> c"
  shows "utf8_decoder 0 0 128 191
      ([224 + c div 4096, 128 + (c div 64) mod 64, 128 + c mod 64] @ rest) =
    c # utf8_decoder 0 0 128 191 rest"
proof -
  define q where "q = c div 4096"
  define m where "m = (c div 64) mod 64"
  define r where "r = c mod 64"
  have q': "q = (c div 64) div 64" unfolding q_def using div_mult2_eq [of c 64 64] by simp
  have a: "c div 64 = 64 * q + m" unfolding q' m_def by (rule div_mod_parts)
  have "c = 64 * (c div 64) + r" unfolding r_def by (rule div_mod_parts)
  with a have c: "c = 4096 * q + 64 * m + r" by simp
  have m: "m < 64" and r: "r < 64" unfolding m_def r_def by simp_all
  have q: "q < 16" unfolding q_def using assms(2) less_mult_imp_div_less [of c 16 4096] by simp
  have lo: "q = 0 \<longrightarrow> \<not> m < 32" using assms(1) c r by auto
  have hi: "q = 13 \<longrightarrow> \<not> 31 < m" using assms(3) c r m by auto
  have b: "(224 + q) mod 16 = q" "(128 + m) mod 64 = m" "(128 + r) mod 64 = r"
    using mod_offset [OF q, of 14] mod_offset [OF m, of 2] mod_offset [OF r, of 2] by simp_all
  have "utf8_decoder 0 0 128 191 ([224 + q, 128 + m, 128 + r] @ rest) =
      c # utf8_decoder 0 0 128 191 rest"
    using q m r lo hi b c by (simp add: algebra_simps)
  then show ?thesis by (simp only: q_def m_def r_def)
qed

lemma utf8_decoder_4:
  assumes "65536 \<le> c" "c < 1114112"
  shows "utf8_decoder 0 0 128 191
      ([240 + c div 262144, 128 + (c div 4096) mod 64, 128 + (c div 64) mod 64,
        128 + c mod 64] @ rest) =
    c # utf8_decoder 0 0 128 191 rest"
proof -
  define q where "q = c div 262144"
  define n where "n = (c div 4096) mod 64"
  define m where "m = (c div 64) mod 64"
  define r where "r = c mod 64"
  have d: "c div 4096 = (c div 64) div 64" using div_mult2_eq [of c 64 64] by simp
  have q': "q = (c div 4096) div 64" unfolding q_def using div_mult2_eq [of c 4096 64] by simp
  have a2: "c div 4096 = 64 * q + n" unfolding q' n_def by (rule div_mod_parts)
  have a1: "c div 64 = 64 * (c div 4096) + m" unfolding d m_def by (rule div_mod_parts)
  have "c = 64 * (c div 64) + r" unfolding r_def by (rule div_mod_parts)
  with a1 a2 have c: "c = 262144 * q + 4096 * n + 64 * m + r" by simp
  have n: "n < 64" and m: "m < 64" and r: "r < 64" unfolding n_def m_def r_def by simp_all
  have q: "q < 5" unfolding q_def using assms(2) less_mult_imp_div_less [of c 5 262144] by simp
  have lo: "q = 0 \<longrightarrow> \<not> n < 16" using assms(1) c r m by auto
  have hi: "q = 4 \<longrightarrow> \<not> 15 < n" using assms(2) c by auto
  have b: "(240 + q) mod 8 = q" "(128 + n) mod 64 = n" "(128 + m) mod 64 = m"
    "(128 + r) mod 64 = r"
    using mod_offset [of q 8 30] q mod_offset [OF n, of 2] mod_offset [OF m, of 2]
      mod_offset [OF r, of 2] by simp_all
  have "utf8_decoder 0 0 128 191 ([240 + q, 128 + n, 128 + m, 128 + r] @ rest) =
      c # utf8_decoder 0 0 128 191 rest"
    using q n m r lo hi b c by (simp add: algebra_simps)
  then show ?thesis by (simp only: q_def n_def m_def r_def)
qed

lemma utf8_decoder_cp:
  "scalar_value c \<Longrightarrow>
   utf8_decoder 0 0 128 191 (utf8_encode_cp c @ rest) = c # utf8_decoder 0 0 128 191 rest"
  using utf8_decoder_1 [of c rest] utf8_decoder_2 [of c rest] utf8_decoder_3 [of c rest]
    utf8_decoder_4 [of c rest]
  by (auto simp add: utf8_encode_cp_def scalar_value_def simp del: utf8_decoder.simps)

lemma utf8_decoder_encode:
  "list_all scalar_value s \<Longrightarrow> utf8_decoder 0 0 128 191 (concat (map utf8_encode_cp s)) = s"
  by (induction s) (simp_all add: utf8_decoder_cp del: utf8_decoder.simps(2))

lemma utf8_encode_cp_bytes: "scalar_value c \<Longrightarrow> b \<in> set (utf8_encode_cp c) \<Longrightarrow> b < 256"
proof -
  assume s: "scalar_value c" and b: "b \<in> set (utf8_encode_cp c)"
  have "c mod 64 < 64" "(c div 64) mod 64 < 64" "(c div 4096) mod 64 < 64" by simp_all
  moreover have "c < 2048 \<Longrightarrow> c div 64 < 32" "c < 65536 \<Longrightarrow> c div 4096 < 16"
    "c < 1114112 \<Longrightarrow> c div 262144 < 5"
    using less_mult_imp_div_less [of c 32 64] less_mult_imp_div_less [of c 16 4096]
      less_mult_imp_div_less [of c 5 262144] by simp_all
  moreover have "c < 1114112" using s by (auto simp: scalar_value_def)
  ultimately show "b < 256" using b by (auto simp: utf8_encode_cp_def split: if_splits)
qed

lemma map_unat_of_nat: "\<forall>x \<in> set xs. x < 256 \<Longrightarrow> map unat (map of_nat xs :: byte list) = xs"
  by (induction xs) (simp_all add: unat_of_nat_byte)

lemma textDecode_utf8_encode:
  assumes "list_all scalar_value s" "s = [] \<or> hd s \<noteq> 65279"
  shows "textDecode (utf8_encode s) = js_string s"
proof -
  have "\<forall>x \<in> set (concat (map utf8_encode_cp s)). x < 256"
    using assms(1) utf8_encode_cp_bytes by (auto simp: list_all_iff)
  then have "map unat (utf8_encode s) = concat (map utf8_encode_cp s)"
    unfolding utf8_encode_def by (rule map_unat_of_nat)
  moreover have "strip_bom s = s" using assms(2) by (cases s) simp_all
  ultimately show ?thesis
    by (simp add: textDecode_def utf8_decoder_encode [OF assms(1)] js_string_def)
qed

lemma utf8_encode_Nil: "utf8_encode s = [] \<Longrightarrow> js_string s = []"
proof (cases s)
  case Nil
  then show ?thesis by (simp add: js_string_def)
next
  case (Cons c cs)
  assume "utf8_encode s = []"
  then show ?thesis using Cons by (simp add: utf8_encode_def utf8_encode_cp_def split: if_splits)
qed

lemma readString_enc:
  assumes "wf_string s" "at_off buf off (enc_string s)"
  shows "readString buf off = Inr (js_string s, off + length (enc_string s))"
proof -
  from assms(1) have l: "length (utf8_encode s) < 2 ^ 15" by (simp add: wf_string_def)
  from assms(1) have d: "textDecode (utf8_encode s) = js_string s"
    by (intro textDecode_utf8_encode) (simp_all add: wf_string_def)
  from readString_at [OF assms(2) [unfolded enc_string_def] l] d utf8_encode_Nil [of s]
  show ?thesis by (auto simp: enc_string_def)
qed

subsection \<open>Lists and compounds\<close>

lemma tag_type_le: "tag_type t \<le> 12"
  by (cases t) simp_all

lemma tag_type_byte: "unat (of_nat (tag_type t) :: byte) = tag_type t"
  using tag_type_le [of t] by (simp add: unat_of_nat_byte)

lemma tag_type_0: "tag_type t = 0 \<longleftrightarrow> t = TagEnd"
  by (cases t) simp_all

lemma insert_index_append:
  "\<forall>k' \<in> set (map fst pre). \<exists>j. array_index k' = Some j \<and> j < i \<Longrightarrow>
   insert_index pre i k v = pre @ [(k, v)]"
  by (induction pre) auto

lemma key_before_index:
  "key_before a b \<Longrightarrow> array_index b = Some i \<Longrightarrow> \<exists>j. array_index a = Some j \<and> j < i"
  by (cases "array_index a") (simp_all add: key_before_def)

lemma set_prop_append:
  assumes "wf_keys (map fst pre @ [k])"
  shows "set_prop (JObject pre None) k v = Inr (JObject (pre @ [(k, v)]) None)"
proof -
  from assms have p: "k \<noteq> lit ''__proto__''" and n: "k \<notin> set (map fst pre)"
    and b: "\<forall>k' \<in> set (map fst pre). key_before k' k"
    by (auto simp: wf_keys_def sorted_wrt_append)
  have "define_prop pre k v = pre @ [(k, v)]"
  proof (cases "array_index k")
    case None
    with n show ?thesis by (simp add: define_prop_def)
  next
    case (Some i)
    with b have "\<forall>k' \<in> set (map fst pre). \<exists>j. array_index k' = Some j \<and> j < i"
      using key_before_index by blast
    from insert_index_append [OF this] Some n show ?thesis by (simp add: define_prop_def)
  qed
  with p show ?thesis by simp
qed

lemma wf_keys_step:
  assumes "wf_keys (xs @ y # ys)"
  shows "wf_keys (xs @ [y])" "wf_keys ((xs @ [y]) @ ys)"
  using assms by (auto simp: wf_keys_def sorted_wrt_append)

lemma readList_loop_at:
  "(\<And>t buf off. t \<in> set ts \<Longrightarrow> at_off buf off (enc_payload t) \<Longrightarrow>
      readTag ty buf off = Inr (js_of t, off + length (enc_payload t))) \<Longrightarrow>
   at_off buf off (concat (map enc_payload ts)) \<Longrightarrow> len = i + int (length ts) \<Longrightarrow>
   readList_loop ty len i acc buf off =
     Inr (acc @ map js_of ts, off + length (concat (map enc_payload ts)))"
proof (induction ts arbitrary: i acc off)
  case Nil
  then show ?case by (simp add: readList_loop.simps [of _ _ i])
next
  case (Cons t ts)
  from Cons.prems(2) have a: "at_off buf off (enc_payload t)"
    "at_off buf (off + length (enc_payload t)) (concat (map enc_payload ts))"
    by (simp_all add: at_off_append)
  have r: "readTag ty buf off = Inr (js_of t, off + length (enc_payload t))"
    by (rule Cons.prems(1) [OF _ a(1)]) simp
  have "readList_loop ty len (i + 1) (acc @ [js_of t]) buf (off + length (enc_payload t)) =
      Inr ((acc @ [js_of t]) @ map js_of ts,
        off + length (enc_payload t) + length (concat (map enc_payload ts)))"
    using Cons.prems(3) by (intro Cons.IH Cons.prems(1) a(2)) simp_all
  then show ?case
    using Cons.prems(3) by (simp add: readList_loop.simps [of _ _ i acc] r add.assoc)
qed

lemma readCompound_loop_at:
  "(\<And>k t buf off. (k, t) \<in> set kvs \<Longrightarrow> at_off buf off (enc_payload t) \<Longrightarrow>
      readTag (tag_type t) buf off = Inr (js_of t, off + length (enc_payload t))) \<Longrightarrow>
   list_all (\<lambda>(k, t). wf_string k \<and> t \<noteq> TagEnd) kvs \<Longrightarrow>
   wf_keys (map fst pre @ map (\<lambda>(k, t). js_string k) kvs) \<Longrightarrow>
   at_off buf off (enc_payload (TagCompound kvs)) \<Longrightarrow>
   readCompound_loop (JObject pre None) buf off =
     Inr (JObject (pre @ map (\<lambda>(k, t). (js_string k, js_of t)) kvs) None,
       off + length (enc_payload (TagCompound kvs)))"
proof (induction kvs arbitrary: pre off)
  case Nil
  from Nil.prems(4) have "at_off buf off [0]" by simp
  from readUByte_at [OF this] show ?case by (simp add: readCompound_loop.simps [of _ buf off])
next
  case (Cons kv kvs)
  obtain k t where kv: "kv = (k, t)" by (cases kv)
  define o1 where "o1 = off + 1"
  define o2 where "o2 = o1 + length (enc_string k)"
  define o3 where "o3 = o2 + length (enc_payload t)"
  define rest where "rest = enc_string k @ enc_payload t @ enc_payload (TagCompound kvs)"
  have e: "enc_payload (TagCompound (kv # kvs)) = of_nat (tag_type t) # rest"
    by (simp add: kv rest_def)
  from Cons.prems(4) have a0: "at_off buf off [of_nat (tag_type t)]" "at_off buf o1 rest"
    unfolding e o1_def by (simp_all add: at_off_Cons [of buf off "of_nat (tag_type t)" rest])
  from a0(2) have a: "at_off buf o1 (enc_string k)" "at_off buf o2 (enc_payload t)"
    "at_off buf o3 (enc_payload (TagCompound kvs))"
    unfolding rest_def o2_def o3_def
    by (simp_all add: at_off_append add.assoc del: enc_payload.simps)
  from Cons.prems(2) have w: "wf_string k" "t \<noteq> TagEnd" by (simp_all add: kv)
  from Cons.prems(3) have ks: "wf_keys (map fst pre @ [js_string k])"
    "wf_keys (map fst (pre @ [(js_string k, js_of t)]) @ map (\<lambda>(k, t). js_string k) kvs)"
    using wf_keys_step [of "map fst pre" "js_string k" "map (\<lambda>(k, t). js_string k) kvs"]
    by (simp_all add: kv)
  have r1: "readUByte buf off = Inr (tag_type t, o1)"
    using readUByte_at [OF a0(1)] by (simp add: tag_type_byte o1_def)
  have r2: "readString buf o1 = Inr (js_string k, o2)"
    using readString_enc [OF w(1) a(1)] by (simp add: o2_def)
  have r3: "readTag (tag_type t) buf o2 = Inr (js_of t, o3)"
    using Cons.prems(1) [of k t buf o2, OF _ a(2)] by (simp add: kv o3_def)
  have r4: "set_prop (JObject pre None) (js_string k) (js_of t) =
      Inr (JObject (pre @ [(js_string k, js_of t)]) None)"
    by (rule set_prop_append [OF ks(1)])
  have r5: "readCompound_loop (JObject (pre @ [(js_string k, js_of t)]) None) buf o3 =
      Inr (JObject ((pre @ [(js_string k, js_of t)]) @ map (\<lambda>(k, t). (js_string k, js_of t)) kvs) None,
        o3 + length (enc_payload (TagCompound kvs)))"
  proof (rule Cons.IH [OF _ _ ks(2) a(3)])
    show "readTag (tag_type t') buf' off' = Inr (js_of t', off' + length (enc_payload t'))"
      if "(k', t') \<in> set kvs" "at_off buf' off' (enc_payload t')" for k' t' buf' off'
      using Cons.prems(1) [of k' t' buf' off'] that by simp
    show "list_all (\<lambda>(k, t). wf_string k \<and> t \<noteq> TagEnd) kvs"
      using Cons.prems(2) by simp
  qed
  have l: "off + length (enc_payload (TagCompound (kv # kvs))) =
      o3 + length (enc_payload (TagCompound kvs))"
    unfolding e rest_def by (simp add: o1_def o2_def o3_def del: enc_payload.simps)
  show ?case
    unfolding l using w(2)
    by (simp add: readCompound_loop.simps [of "JObject pre None" buf off] r1 r2 r3 r4 r5
        tag_type_0 kv del: set_prop.simps)
qed

lemma readTag_enc:
  "wf_tag t \<Longrightarrow> at_off buf off (enc_payload t) \<Longrightarrow>
   readTag (tag_type t) buf off = Inr (js_of t, off + length (enc_payload t))"
proof (induction t arbitrary: buf off)
  case TagEnd
  then show ?case by (simp add: readTag.simps)
next
  case (TagByte b)
  then show ?case by (simp add: readTag.simps readByte_at)
next
  case (TagShort w)
  then show ?case by (simp add: readTag.simps readShort_at)
next
  case (TagInt w)
  then show ?case by (simp add: readTag.simps readInt_at)
next
  case (TagLong w)
  then show ?case by (simp add: readTag.simps readLong_at)
next
  case (TagFloat w)
  then show ?case by (simp add: readTag.simps readFloat_at)
next
  case (TagDouble w)
  then show ?case by (simp add: readTag.simps readDouble_at)
next
  case (TagByteArray bs)
  then show ?case by (simp add: readTag.simps readByteArray_at)
next
  case (TagString s)
  then show ?case by (simp add: readTag.simps readString_enc)
next
  case (TagList ty ts)
  from TagList.prems(1) have ty: "ty < 256" and n: "length ts < 2 ^ 31"
    and el: "\<And>t. t \<in> set ts \<Longrightarrow> tag_type t = ty \<and> wf_tag t"
    by (auto simp: list_all_iff)
  define rest where "rest = be_bytes 4 (length ts) @ concat (map enc_payload ts)"
  have e: "enc_payload (TagList ty ts) = of_nat ty # rest" by (simp add: rest_def)
  from TagList.prems(2) have a0: "at_off buf off [of_nat ty]" "at_off buf (off + 1) rest"
    unfolding e by (simp_all add: at_off_Cons [of buf off "of_nat ty" rest])
  from a0(2) have a: "at_off buf (off + 1) (be_bytes 4 (length ts))"
    "at_off buf (off + 5) (concat (map enc_payload ts))"
    unfolding rest_def by (simp_all add: at_off_append ac_simps)
  have r1: "readUByte buf off = Inr (ty, off + 1)"
    using readUByte_at [OF a0(1)] ty by (simp add: unat_of_nat_byte)
  have r2: "readInt buf (off + 1) = Inr (int (length ts), off + 5)"
    using readInt_count [OF a(1) n] by (simp add: add.assoc)
  have r3: "readList_loop ty (int (length ts)) 0 [] buf (off + 5) =
      Inr ([] @ map js_of ts, off + 5 + length (concat (map enc_payload ts)))"
  proof (rule readList_loop_at [OF _ a(2)])
    show "readTag ty buf' off' = Inr (js_of t, off' + length (enc_payload t))"
      if "t \<in> set ts" "at_off buf' off' (enc_payload t)" for t buf' off'
      using TagList.IH [OF that(1) _ that(2)] el [OF that(1)] by simp
  qed simp
  have l: "off + length (enc_payload (TagList ty ts)) =
      off + 5 + length (concat (map enc_payload ts))"
    unfolding e rest_def by simp
  show ?case unfolding l using r1 r2 r3 by (simp add: readTag.simps readList.simps)
next
  case (TagCompound kvs)
  from TagCompound.prems(1)
  have w: "list_all (\<lambda>(k, t). wf_string k \<and> t \<noteq> TagEnd) kvs"
    and wt: "\<And>k t. (k, t) \<in> set kvs \<Longrightarrow> wf_tag t"
    and ks: "wf_keys (map fst ([] :: (jstring \<times> jsval) list) @ map (\<lambda>(k, t). js_string k) kvs)"
    by (auto simp: list_all_iff)
  have "readCompound_loop (JObject [] None) buf off =
      Inr (JObject ([] @ map (\<lambda>(k, t). (js_string k, js_of t)) kvs) None,
        off + length (enc_payload (TagCompound kvs)))"
  proof (rule readCompound_loop_at [OF _ w ks TagCompound.prems(2)])
    show "readTag (tag_type t) buf' off' = Inr (js_of t, off' + length (enc_payload t))"
      if "(k, t) \<in> set kvs" "at_off buf' off' (enc_payload t)" for k t buf' off'
      using TagCompound.IH [OF that(1) _ wt [OF that(1)] that(2)] by simp
  qed
  then show ?case by (simp add: readTag.simps readCompound.simps del: enc_payload.simps)
next
  case (TagIntArray ws)
  then show ?case by (simp add: readTag.simps readIntArray_at)
next
  case (TagLongArray ws)
  then show ?case by (simp add: readTag.simps readLongArray_at)
qed

lemma parse_enc_document:
  assumes "wf_tag t" "tag_type t = 10" "wf_string name"
  shows "parse (enc_document name t) =
    Inr (\<lparr>doc_name = js_string name, doc_value = js_of t\<rparr>, length (enc_document name t))"
proof -
  define buf where "buf = enc_document name t"
  define rest where "rest = enc_string name @ enc_payload t"
  have e: "buf = 10 # rest" by (simp add: buf_def rest_def enc_document_def)
  have "at_off buf 0 (10 # rest)" unfolding e by (rule at_off_self)
  then have a0: "at_off buf 0 [10]" "at_off buf 1 rest"
    by (simp_all add: at_off_Cons [of buf 0 10 rest])
  from a0(2) have a: "at_off buf 1 (enc_string name)"
    "at_off buf (1 + length (enc_string name)) (enc_payload t)"
    unfolding rest_def by (simp_all add: at_off_append)
  have r1: "readUByte buf 0 = Inr (10, 1)" using readUByte_at [OF a0(1)] by simp
  have r2: "readString buf 1 = Inr (js_string name, 1 + length (enc_string name))"
    by (rule readString_enc [OF assms(3) a(1)])
  have "readTag (tag_type t) buf (1 + length (enc_string name)) =
      Inr (js_of t, 1 + length (enc_string name) + length (enc_payload t))"
    by (rule readTag_enc [OF assms(1) a(2)])
  then have r3: "readCompound buf (1 + length (enc_string name)) =
      Inr (js_of t, 1 + length (enc_string name) + length (enc_payload t))"
    by (simp add: assms(2) readTag.simps)
  have l: "length buf = 1 + length (enc_string name) + length (enc_payload t)"
    unfolding e rest_def by simp
  show ?thesis
    unfolding buf_def [symmetric] l using r1 r2 r3 by (simp add: parse_def)
qed

lemma be_bytes_0: "be_bytes 0 v = []"
  by (simp add: be_bytes_def)

lemma be_bytes_eval:
  "be_bytes 2 v = [of_nat (v div 256), of_nat v]"
  "be_bytes 4 v = [of_nat (v div 16777216), of_nat (v div 65536), of_nat (v div 256), of_nat v]"
proof -
  have "be_bytes (Suc (Suc 0)) v = [of_nat (v div 256), of_nat v]"
    by (simp add: be_bytes_Suc be_bytes_0)
  then show "be_bytes 2 v = [of_nat (v div 256), of_nat v]"
    by (simp only: numeral_2_eq_2)
  have "be_bytes (Suc (Suc (Suc (Suc 0)))) v =
      [of_nat (v div 16777216), of_nat (v div 65536), of_nat (v div 256), of_nat v]"
    by (simp add: be_bytes_Suc be_bytes_0)
  moreover have "(4 :: nat) = Suc (Suc (Suc (Suc 0)))" by simp
  ultimately show "be_bytes 4 v =
      [of_nat (v div 16777216), of_nat (v div 65536), of_nat (v div 256), of_nat v]"
    by (simp only:)
qed

lemmas encoder_eval = enc_document_def enc_string_def utf8_encode_def utf8_encode_cp_def
  be_bytes_eval js_string_def


text \<open>
  Claim C3, as the code has it. Take a tag tree within the bounds (at most 512 levels, at
  most \<open>2^20\<close> values, at most \<open>2^24\<close> encoded bytes) in which every string is made of
  Unicode scalar values, does not begin with U+FEFF and has at most 32767 UTF-8 bytes,
  every list holds elements of its declared type, and the keys of every compound are
  distinct, are not \<^verbatim>\<open>__proto__\<close> and stand in the order in which JavaScript lists the
  keys of an object (array-index keys first, ascending). Decoding the reference encoding
  of the tree gives the value that stands for the tree, with the same scalar values, the
  same lengths and element order and the same key order and values, and the reader ends
  right after the encoding. The same holds for a document whose root is such a compound.
\<close>

theorem round_trip:
  "wf_tag t \<Longrightarrow> within_bounds t \<Longrightarrow> wf_string name \<Longrightarrow>
   readTag (tag_type t) (enc_payload t) 0 = Inr (js_of t, length (enc_payload t)) \<and>
   (tag_type t = 10 \<longrightarrow>
    parse (enc_document name t) =
      Inr (\<lparr>doc_name = js_string name, doc_value = js_of t\<rparr>, length (enc_document name t)))"
  using readTag_enc [of t "enc_payload t" 0] at_off_self [of "enc_payload t"]
    parse_enc_document [of t name]
  by simp


text \<open>The sample tree under the root name \<^verbatim>\<open>root\<close>.\<close>

theorem round_trip_witness:
  "wf_tag sample_tree \<and> within_bounds sample_tree \<and> wf_string (lit ''root'') \<and>
   tag_type sample_tree = 10 \<and>
   readTag 10 (enc_payload sample_tree) 0 = Inr (js_of sample_tree, length (enc_payload sample_tree)) \<and>
   parse (enc_document (lit ''root'') sample_tree) =
     Inr (\<lparr>doc_name = js_string (lit ''root''), doc_value = js_of sample_tree\<rparr>,
       length (enc_document (lit ''root'') sample_tree))"
  using round_trip [of sample_tree "lit ''root''"]
  by (simp add: sample_tree_def within_bounds_def wf_string_def wf_keys_def key_before_def
      scalar_value_def array_index_def is_digit_def dec_value_def utf8_encode_def
      utf8_encode_cp_def enc_string_def js_string_def utf16_units_def lit_def)

text \<open>
  Claim C3 as stated fails: the compound with the keys \<^verbatim>\<open>b\<close> and \<^verbatim>\<open>1\<close>, in this order,
  decodes to an object that lists \<^verbatim>\<open>1\<close> before \<^verbatim>\<open>b\<close>, since a JavaScript object lists
  its array-index keys first.
\<close>

theorem round_trip_key_order_counterexample:
  "parse (enc_document [] (TagCompound [(lit ''b'', TagByte 1), (lit ''1'', TagByte 2)])) =
     Inr (\<lparr>doc_name = [], doc_value = JObject [(lit ''1'', jsint 2), (lit ''b'', jsint 1)] None\<rparr>, 14) \<and>
   js_of (TagCompound [(lit ''b'', TagByte 1), (lit ''1'', TagByte 2)]) =
     JObject [(lit ''b'', jsint 1), (lit ''1'', jsint 2)] None \<and>
   parse (enc_document [] (TagCompound [(lit ''b'', TagByte 1), (lit ''1'', TagByte 2)])) \<noteq>
     Inr (\<lparr>doc_name = js_string [],
            doc_value = js_of (TagCompound [(lit ''b'', TagByte 1), (lit ''1'', TagByte 2)])\<rparr>,
          length (enc_document [] (TagCompound [(lit ''b'', TagByte 1), (lit ''1'', TagByte 2)])))"
  by (simp add: encoder_eval reader_eval)


section \<open>Duplicate keys\<close>

text \<open>
  Claim C7 fails on the key \<^verbatim>\<open>__proto__\<close>. The root compound below holds this key twice,
  with the byte values 5 and 6. Each assignment \<^verbatim>\<open>compound[name] = value\<close> reaches the
  setter inherited from \<^verbatim>\<open>Object.prototype\<close>, which ignores a number, so the decoded
  object has no entry for the key instead of one entry bound to 6.
\<close>

theorem duplicate_proto_key:
  "parse [10, 0, 0,
     1, 0, 9, 95, 95, 112, 114, 111, 116, 111, 95, 95, 5,
     1, 0, 9, 95, 95, 112, 114, 111, 116, 111, 95, 95, 6,
     0] = Inr (\<lparr>doc_name = [], doc_value = JObject [] None\<rparr>, 30)"
  by (simp add: reader_eval jsint_def)

text \<open>
  With the key \<^verbatim>\<open>a\<close> in place of \<^verbatim>\<open>__proto__\<close> the later value is kept. For every key
  other than \<^verbatim>\<open>__proto__\<close>, assigning twice in a row leaves what assigning the later
  value alone leaves.
\<close>

lemma duplicate_ordinary_key:
  "parse [10, 0, 0, 1, 0, 1, 97, 5, 1, 0, 1, 97, 6, 0] =
     Inr (\<lparr>doc_name = [], doc_value = JObject [(lit ''a'', jsint 6)] None\<rparr>, 14)"
  by (simp add: reader_eval)

lemma update_prop_twice: "update_prop (update_prop kvs k v1) k v2 = update_prop kvs k v2"
  by (induction kvs) auto

lemma update_prop_keys: "map fst (update_prop kvs k v) = map fst kvs"
  by (induction kvs) auto

lemma update_prop_append_new:
  "k \<notin> set (map fst kvs) \<Longrightarrow> update_prop (kvs @ [(k, v1)]) k v2 = kvs @ [(k, v2)]"
  by (induction kvs) auto

lemma update_prop_insert_index:
  "k \<notin> set (map fst kvs) \<Longrightarrow> update_prop (insert_index kvs i k v1) k v2 = insert_index kvs i k v2"
  by (induction kvs) (auto split: option.splits)

lemma insert_index_member: "(k, v) \<in> set (insert_index kvs i k v)"
  by (induction kvs) (auto split: option.splits)

lemma define_prop_keys: "k \<in> set (map fst (define_prop kvs k v))"
proof (cases "k \<in> set (map fst kvs)")
  case True
  then show ?thesis by (simp add: define_prop_def update_prop_keys del: set_map)
next
  case False
  have "(k, v) \<in> set (define_prop kvs k v)"
    using False insert_index_member [of k v kvs]
    by (simp add: define_prop_def del: set_map split: option.splits)
  then have "fst (k, v) \<in> fst ` set (define_prop kvs k v)" by (rule imageI)
  then show ?thesis by simp
qed

lemma define_prop_twice: "define_prop (define_prop kvs k v1) k v2 = define_prop kvs k v2"
proof (cases "k \<in> set (map fst kvs)")
  case True
  then show ?thesis by (simp add: define_prop_def update_prop_keys update_prop_twice del: set_map)
next
  case False
  have "define_prop (define_prop kvs k v1) k v2 = update_prop (define_prop kvs k v1) k v2"
    using define_prop_keys [of k kvs v1] by (simp add: define_prop_def [of "define_prop kvs k v1"])
  also have "\<dots> = define_prop kvs k v2"
    using False
    by (simp add: define_prop_def update_prop_append_new update_prop_insert_index del: set_map
        split: option.splits)
  finally show ?thesis .
qed

lemma typed_array_in_chain_proto:
  "typed_array_in_chain (JObject kvs proto) = typed_array_in_chain (JObject kvs' proto)"
  by (cases proto) simp_all

lemma set_prop_twice:
  assumes "k \<noteq> lit ''__proto__''" "set_prop (JObject kvs proto) k v1 = Inr c"
  shows "set_prop c k v2 = set_prop (JObject kvs proto) k v2"
  using assms typed_array_in_chain_proto [of "define_prop kvs k v1" proto kvs]
  by (auto simp: define_prop_twice split: if_splits)

end
